theory Spec2Isabelle
  imports Main "HOL-Library.List_Lexorder" "HOL-Library.AList"
begin

section \<open>Text\<close>

text \<open>
  A Python \<open>str\<close> is a sequence of Unicode code points: slicing, \<open>len\<close> and the
  comparison used by \<open>sort\<close> all work on code points. It is modelled as the list of its
  code points, so that \<open>take 7\<close> is \<open>[:7]\<close> and the lexicographic order of lists
  (\<open>HOL-Library.List_Lexorder\<close>) is Python's string order. \<open>S\<close> turns an ASCII
  literal into such a list; the four non-ASCII symbols of the source are given by their
  code points.
\<close>

type_synonym str = "nat list"

definition S :: "string \<Rightarrow> str" where
  "S cs = map of_char cs"

definition NL :: nat where "NL = 10"
definition CR :: nat where "CR = 13"
definition COMMA :: nat where "COMMA = 44"
definition QUOTE :: nat where "QUOTE = 34"
definition SLASH :: nat where "SLASH = 47"

definition check_mark :: str where "check_mark = [10003]"
definition arrow :: str where "arrow = [8594]"
definition lock_emoji :: str where "lock_emoji = [128274]"
definition globe_emoji :: str where "globe_emoji = [127760]"

text \<open>\<open>str(n)\<close> for a non-negative integer, as an f-string interpolates it.\<close>

fun show_nat :: "nat \<Rightarrow> str" where
  "show_nat n = (if n < 10 then [48 + n] else show_nat (n div 10) @ [48 + n mod 10])"

declare show_nat.simps [simp del]

text \<open>\<open>print(s)\<close> writes \<open>s\<close> and a newline; \<open>print(s, end=" ")\<close> writes \<open>s\<close> and a space.\<close>

definition println :: "str \<Rightarrow> str" where
  "println s = s @ [NL]"

definition rule80 :: str where
  "rule80 = replicate 80 61"

definition dash80 :: str where
  "dash80 = replicate 80 45"

text \<open>\<open>s.split(c)\<close> for a one-character separator: never empty, one more piece than separators.\<close>

fun split_on :: "nat \<Rightarrow> str \<Rightarrow> str list" where
  "split_on c [] = [[]]"
| "split_on c (x # xs) =
     (if x = c then [] # split_on c xs
      else (case split_on c xs of [] \<Rightarrow> [[x]] | p # ps \<Rightarrow> (x # p) # ps))"

text \<open>\<open>s.split("\n")[0]\<close>: the first line of a message.\<close>

definition first_line :: "str \<Rightarrow> str" where
  "first_line s = hd (split_on NL s)"

text \<open>\<open>s.replace("\n", " | ")\<close>.\<close>

definition replace_newlines :: "str \<Rightarrow> str" where
  "replace_newlines s = concat (map (\<lambda>c. if c = NL then S '' | '' else [c]) s)"

text \<open>\<open>s.strip()\<close>: the characters Python's \<open>str.isspace\<close> accepts are removed at both ends.\<close>

definition is_space :: "nat \<Rightarrow> bool" where
  "is_space c \<longleftrightarrow> c \<in> set [9, 10, 11, 12, 13, 28, 29, 30, 31, 32, 133, 160, 5760,
     8192, 8193, 8194, 8195, 8196, 8197, 8198, 8199, 8200, 8201, 8202, 8232, 8233, 8239, 8287, 12288]"

definition strip :: "str \<Rightarrow> str" where
  "strip s = rev (dropWhile is_space (rev (dropWhile is_space s)))"

text \<open>
  \<open>xs.sort(key=f, reverse=True)\<close>: CPython reverses the list, sorts it with a stable
  ascending sort and reverses the result, so that equal keys keep their original order.
\<close>

definition sort_reverse :: "('a \<Rightarrow> 'k::linorder) \<Rightarrow> 'a list \<Rightarrow> 'a list" where
  "sort_reverse f xs = rev (sort_key f (rev xs))"

section \<open>Data model\<close>

text \<open>
  The JSON objects of the API are dictionaries in the source; the model gives each the
  fields the source reads. A repository as listed by the enumeration endpoint:
\<close>

record repo =
  full_name :: str
  private_flag :: bool
  html_url :: str

text \<open>The dictionary stored under \<open>commit['repository']\<close> by \<open>fetch_all_commits\<close>.\<close>

record repo_ref =
  ref_full_name :: str
  ref_private :: bool
  ref_url :: str

text \<open>
  A commit: \<open>sha\<close>, \<open>commit.message\<close>, \<open>commit.committer.date\<close>, \<open>html_url\<close> and
  the \<open>repository\<close> key, absent (\<open>None\<close>) in what the API returns.
\<close>

record commit =
  sha :: str
  message :: str
  committer_date :: str
  commit_html_url :: str
  repository :: "repo_ref option"

datatype error = ValueError | KeyError | EOFError | UnicodeEncodeError | CsvError

section \<open>The remote API\<close>

text \<open>
  Every \<open>requests.get\<close> of the source is one \<open>request\<close>; \<open>per_page = 100\<close>, the
  affiliation filter and the Accept header are constants of the source and left out.
\<close>

datatype request =
  GetUser str
| GetRepos str nat
| GetCommits str str str str str str nat

text \<open>
  \<open>GetUser token\<close>; \<open>GetRepos token page\<close>;
  \<open>GetCommits token owner repo author since until page\<close>.

  A response carries the status code and the decoded JSON body, seen through the field
  the caller reads: the login name, the batch of repositories, the batch of commits, and
  the text that \<open>print(response.json())\<close> shows.
\<close>

record response =
  status_code :: nat
  json_login :: str
  json_repos :: "repo list"
  json_commits :: "commit list"
  json_text :: str

text \<open>
  The server answers the last request of a history: it may answer the same request
  differently at different times. The world threaded through the program is the history
  of requests and what was written to standard output, one entry per write.
\<close>

type_synonym server = "request list \<Rightarrow> response"

record io =
  log :: "request list"
  out :: "str list"

definition send :: "server \<Rightarrow> request \<Rightarrow> io \<Rightarrow> response \<times> io" where
  "send srv rq w = (let w' = w\<lparr>log := log w @ [rq]\<rparr> in (srv (log w'), w'))"

definition say :: "str list \<Rightarrow> io \<Rightarrow> io" where
  "say ls w = w\<lparr>out := out w @ ls\<rparr>"

section \<open>Repository enumeration\<close>

text \<open>The \<open>while True\<close> loop of \<open>get_all_repositories\<close>; it need not terminate.\<close>

partial_function (option) repos_loop ::
  "server \<Rightarrow> str \<Rightarrow> nat \<Rightarrow> repo list \<Rightarrow> io \<Rightarrow> (repo list \<times> io) option" where
  "repos_loop srv token page repos w =
    (case send srv (GetRepos token page) w of (response, w1) \<Rightarrow>
       if status_code response \<noteq> 200
       then Some (repos, say [println (S ''Error fetching repositories: '' @ show_nat (status_code response)),
                              println (json_text response)] w1)
       else let batch = json_repos response
            in if batch = [] then Some (repos, w1)
               else let repos' = repos @ batch
                    in if length batch < 100 then Some (repos', w1)
                       else repos_loop srv token (page + 1) repos' w1)"

declare repos_loop.simps [code]

definition get_all_repositories :: "server \<Rightarrow> str \<Rightarrow> io \<Rightarrow> (repo list \<times> io) option" where
  "get_all_repositories srv token w =
    (case repos_loop srv token 1 [] (say [println (S ''Fetching your repositories (including private)...'')] w) of
       None \<Rightarrow> None
     | Some (repos, w1) \<Rightarrow>
         Some (repos, say [println (S ''Found '' @ show_nat (length repos) @ S '' repositories'')] w1))"

section \<open>Commit pagination\<close>

text \<open>The \<open>while True\<close> loop of \<open>get_commits_from_repo\<close>.\<close>

partial_function (option) commits_loop ::
  "server \<Rightarrow> (nat \<Rightarrow> request) \<Rightarrow> nat \<Rightarrow> commit list \<Rightarrow> io \<Rightarrow> (commit list \<times> io) option" where
  "commits_loop srv rq page commits w =
    (case send srv (rq page) w of (response, w1) \<Rightarrow>
       if status_code response \<noteq> 200 then Some (commits, w1)
       else let batch = json_commits response
            in if batch = [] then Some (commits, w1)
               else let commits' = commits @ batch
                    in if length batch < 100 then Some (commits', w1)
                       else commits_loop srv rq (page + 1) commits' w1)"

declare commits_loop.simps [code]

text \<open>
  \<open>owner, repo = repo_full_name.split('/')\<close> raises ValueError unless there are exactly
  two pieces. The request of page \<open>p\<close> carries the author and the time window.
\<close>

definition commits_request :: "str \<Rightarrow> str \<Rightarrow> str \<Rightarrow> str \<Rightarrow> str \<Rightarrow> str \<Rightarrow> nat \<Rightarrow> request" where
  "commits_request token username owner rp start_date end_date page =
     GetCommits token owner rp username (start_date @ S ''T00:00:00Z'') (end_date @ S ''T23:59:59Z'') page"

definition get_commits_from_repo ::
  "server \<Rightarrow> str \<Rightarrow> str \<Rightarrow> str \<Rightarrow> str \<Rightarrow> str \<Rightarrow> io \<Rightarrow> ((error + commit list) \<times> io) option" where
  "get_commits_from_repo srv username token repo_full_name start_date end_date w =
    (case split_on SLASH repo_full_name of
       [owner, rp] \<Rightarrow>
         (case commits_loop srv (commits_request token username owner rp start_date end_date) 1 [] w of
            None \<Rightarrow> None
          | Some (commits, w1) \<Rightarrow> Some (Inr commits, w1))
     | _ \<Rightarrow> Some (Inl ValueError, w))"

section \<open>Aggregation\<close>

definition privacy_label :: "bool \<Rightarrow> str" where
  "privacy_label is_private = (if is_private then S ''[PRIVATE]'' else S ''[PUBLIC]'')"

definition attach :: "repo \<Rightarrow> commit \<Rightarrow> commit" where
  "attach rp c = c\<lparr>repository := Some \<lparr>ref_full_name = full_name rp, ref_private = private_flag rp,
                                           ref_url = html_url rp\<rparr>\<rparr>"

text \<open>The progress line printed before a repository is fetched (\<open>end=" "\<close>).\<close>

definition progress_line :: "nat \<Rightarrow> nat \<Rightarrow> repo \<Rightarrow> str" where
  "progress_line i n rp =
     S ''['' @ show_nat i @ S ''/'' @ show_nat n @ S ''] '' @ privacy_label (private_flag rp)
       @ S '' '' @ full_name rp @ S ''...'' @ S '' ''"

definition count_line :: "nat \<Rightarrow> str" where
  "count_line k = println (check_mark @ S '' '' @ show_nat k @ S '' commits'')"

definition zero_line :: str where
  "zero_line = println (check_mark @ S '' 0 commits'')"

text \<open>
  The \<open>for i, repo in enumerate(repos, 1)\<close> loop. \<open>repo_commit_count\<close> is a dictionary
  that is only assigned to; it is an association list in insertion order, and
  \<open>AList.update\<close> replaces the value of a key already present where it stands, as a
  Python dictionary does.
\<close>

fun fetch_repos ::
  "server \<Rightarrow> str \<Rightarrow> str \<Rightarrow> str \<Rightarrow> str \<Rightarrow> nat \<Rightarrow> nat \<Rightarrow> repo list \<Rightarrow> commit list \<Rightarrow> (str \<times> nat) list \<Rightarrow> io
     \<Rightarrow> ((error + commit list \<times> (str \<times> nat) list) \<times> io) option" where
  "fetch_repos srv username token start_date end_date i n [] all_commits repo_commit_count w =
     Some (Inr (all_commits, repo_commit_count), w)"
| "fetch_repos srv username token start_date end_date i n (rp # rest) all_commits repo_commit_count w =
     (let repo_name = full_name rp;
          w1 = say [progress_line i n rp] w
      in case get_commits_from_repo srv username token repo_name start_date end_date w1 of
           None \<Rightarrow> None
         | Some (Inl e, w2) \<Rightarrow> Some (Inl e, w2)
         | Some (Inr commits, w2) \<Rightarrow>
             if commits \<noteq> []
             then fetch_repos srv username token start_date end_date (i + 1) n rest
                    (all_commits @ map (attach rp) commits)
                    (AList.update repo_name (length commits) repo_commit_count)
                    (say [count_line (length commits)] w2)
             else fetch_repos srv username token start_date end_date (i + 1) n rest
                    all_commits repo_commit_count
                    (say [zero_line] w2))"

definition fetch_all_commits ::
  "server \<Rightarrow> str \<Rightarrow> str \<Rightarrow> str \<Rightarrow> str \<Rightarrow> io \<Rightarrow> ((error + commit list \<times> (str \<times> nat) list) \<times> io) option" where
  "fetch_all_commits srv username token start_date end_date w =
    (case get_all_repositories srv token w of
       None \<Rightarrow> None
     | Some (repos, w1) \<Rightarrow>
         (case fetch_repos srv username token start_date end_date 1 (length repos) repos [] []
                 (say [println ([NL] @ S ''Fetching commits from '' @ start_date @ S '' to '' @ end_date @ S ''...''),
                       println dash80] w1) of
            None \<Rightarrow> None
          | Some (Inl e, w2) \<Rightarrow> Some (Inl e, w2)
          | Some (Inr (all_commits, repo_commit_count), w2) \<Rightarrow>
              Some (Inr (sort_reverse committer_date all_commits, repo_commit_count), w2)))"

section \<open>Dates\<close>

text \<open>
  \<open>datetime.strptime\<close> and \<open>strftime\<close> are library code and enter as parameters:
  \<open>parse_day d\<close> tells whether \<open>strptime(d, "%Y-%m-%d")\<close> returns rather than raising
  ValueError, and \<open>reformat t\<close> is
  \<open>strptime(t, "%Y-%m-%dT%H:%M:%SZ").strftime("%Y-%m-%d %H:%M")\<close>, \<open>None\<close> when
  \<open>strptime\<close> raises ValueError.

  The timestamps of the API have the fixed-width shape \<open>YYYY-MM-DDTHH:MM:SSZ\<close>;
  \<open>fixed_width_timestamp\<close> recognises it, \<open>chronological\<close> reads such a string as the
  number \<open>YYYYMMDDHHMMSS\<close>, which grows with time, and \<open>minute_of\<close> is what
  \<open>reformat\<close> gives on it: the day, a space, hours and minutes.
\<close>

definition is_digit :: "nat \<Rightarrow> bool" where
  "is_digit c \<longleftrightarrow> 48 \<le> c \<and> c \<le> 57"

fun decimal :: "nat \<Rightarrow> str \<Rightarrow> nat" where
  "decimal acc [] = acc"
| "decimal acc (c # cs) = decimal (10 * acc + (c - 48)) cs"

text \<open>\<open>shaped p s\<close>: \<open>s\<close> follows the template \<open>p\<close>, where \<open>d\<close> stands for a digit and
  any other character for itself.\<close>

fun shaped :: "str \<Rightarrow> str \<Rightarrow> bool" where
  "shaped [] [] \<longleftrightarrow> True"
| "shaped (p # ps) (c # cs) \<longleftrightarrow> (if p = 100 then is_digit c else c = p) \<and> shaped ps cs"
| "shaped _ _ \<longleftrightarrow> False"

definition fixed_width_day :: "str \<Rightarrow> bool" where
  "fixed_width_day s \<longleftrightarrow> shaped (S ''dddd-dd-dd'') s"

definition fixed_width_timestamp :: "str \<Rightarrow> bool" where
  "fixed_width_timestamp s \<longleftrightarrow> shaped (S ''dddd-dd-ddTdd:dd:ddZ'') s"

definition chronological :: "str \<Rightarrow> nat" where
  "chronological s = decimal 0 (filter is_digit s)"

definition minute_of :: "str \<Rightarrow> str option" where
  "minute_of s = (if fixed_width_timestamp s then Some (take 10 s @ S '' '' @ take 5 (drop 11 s)) else None)"













section \<open>Console report\<close>

text \<open>The numbered detail list of \<open>display_commits\<close>; it returns what was printed and the
  exception that ended it, if any.\<close>

fun display_list :: "(str \<Rightarrow> str option) \<Rightarrow> nat \<Rightarrow> commit list \<Rightarrow> str list \<times> error option" where
  "display_list reformat i [] = ([], None)"
| "display_list reformat i (c # cs) =
     (case repository c of
        None \<Rightarrow> ([], Some KeyError)
      | Some r \<Rightarrow>
          (case reformat (committer_date c) of
             None \<Rightarrow> ([], Some ValueError)
           | Some formatted_date \<Rightarrow>
               (case display_list reformat (i + 1) cs of (ls, e) \<Rightarrow>
                  ([println (show_nat i @ S ''. '' @ privacy_label (ref_private r) @ S '' ['' @ ref_full_name r @ S '']''),
                    println (S ''   SHA: '' @ take 7 (sha c)),
                    println (S ''   Date: '' @ formatted_date),
                    println (S ''   Message: '' @ first_line (message c)),
                    println (S ''   URL: '' @ commit_html_url c),
                    println []] @ ls, e))))"

definition breakdown :: "(str \<times> nat) list \<Rightarrow> (str \<times> nat) list" where
  "breakdown repo_commit_count = sort_reverse snd repo_commit_count"

definition no_commits_notice :: str where
  "no_commits_notice = println (S ''No commits found in the specified date range.'')"

definition display_commits ::
  "(str \<Rightarrow> str option) \<Rightarrow> commit list \<Rightarrow> (str \<times> nat) list \<Rightarrow> str list \<times> error option" where
  "display_commits reformat commits repo_commit_count =
    (if commits = []
     then ([println ([NL] @ rule80), no_commits_notice, println rule80], None)
     else (case display_list reformat 1 commits of (ls, e) \<Rightarrow>
       ([println ([NL] @ rule80), println (S ''SUMMARY''), println rule80,
         println (S ''Total commits: '' @ show_nat (length commits)),
         println (S ''Repositories with commits: '' @ show_nat (length repo_commit_count)),
         println [],
         println (S ''Commits by repository:'')]
        @ map (\<lambda>(rp, count). println (S ''  '' @ rp @ S '': '' @ show_nat count @ S '' commits''))
              (breakdown repo_commit_count)
        @ [println ([NL] @ rule80), println (S ''DETAILED COMMIT LIST''), println (rule80 @ [NL])]
        @ ls, e)))"

section \<open>Files\<close>

text \<open>
  Both export files are opened with \<open>encoding='utf-8'\<close>. A text holding a surrogate
  code point (D800 to DFFF, which JSON escapes can produce) cannot be encoded: the
  \<open>write\<close> raises UnicodeEncodeError, nothing of that text reaches the file, and the
  file keeps what was written before. \<open>write_all\<close> takes the texts a function passes
  to \<open>write\<close>, in order, with the exception that ends the function after them (if any),
  and gives the texts that reach the file and the exception that ends the function.
\<close>

definition utf8_ok :: "str \<Rightarrow> bool" where
  "utf8_ok s \<longleftrightarrow> list_all (\<lambda>c. c < 55296 \<or> 57343 < c) s"

definition write_all :: "str list \<times> error option \<Rightarrow> str list \<times> error option" where
  "write_all p =
     (case p of (ws, e) \<Rightarrow>
        if list_all utf8_ok ws then (ws, e) else (takeWhile utf8_ok ws, Some UnicodeEncodeError))"

section \<open>CSV export\<close>

text \<open>
  \<open>csv.DictWriter\<close> with the default dialect: comma, double quote, minimal quoting, CR LF
  after each row. A field is quoted when it holds a comma, a quote, CR or LF, with quotes
  doubled inside; a row that is one empty field is written as two quotes.
\<close>

definition csv_special :: "nat \<Rightarrow> bool" where
  "csv_special c \<longleftrightarrow> c = COMMA \<or> c = QUOTE \<or> c = CR \<or> c = NL"

definition csv_field :: "str \<Rightarrow> str" where
  "csv_field f =
     (if list_ex csv_special f
      then [QUOTE] @ concat (map (\<lambda>c. if c = QUOTE then [QUOTE, QUOTE] else [c]) f) @ [QUOTE]
      else f)"

fun join_comma :: "str list \<Rightarrow> str" where
  "join_comma [] = []"
| "join_comma [f] = f"
| "join_comma (f # g # fs) = f @ [COMMA] @ join_comma (g # fs)"

definition csv_writerow :: "str list \<Rightarrow> str" where
  "csv_writerow cells =
     (if cells = [[]] then [QUOTE, QUOTE] else join_comma (map csv_field cells)) @ [CR, NL]"

definition fieldnames :: "str list" where
  "fieldnames = [S ''Date'', S ''Repository'', S ''Private'', S ''SHA'', S ''Message'', S ''URL'']"

text \<open>The dictionary passed to \<open>writerow\<close>, in the order of \<open>fieldnames\<close>.\<close>

definition csv_record :: "commit \<Rightarrow> error + str list" where
  "csv_record c =
     (case repository c of
        None \<Rightarrow> Inl KeyError
      | Some r \<Rightarrow> Inr [committer_date c, ref_full_name r,
                       (if ref_private r then S ''Yes'' else S ''No''),
                       take 7 (sha c), replace_newlines (message c), commit_html_url c])"

fun csv_rows :: "commit list \<Rightarrow> str list \<times> error option" where
  "csv_rows [] = ([], None)"
| "csv_rows (c # cs) =
     (case csv_record c of
        Inl e \<Rightarrow> ([], Some e)
      | Inr cells \<Rightarrow> (case csv_rows cs of (ws, e) \<Rightarrow> (csv_writerow cells # ws, e)))"

text \<open>
  \<open>export_to_csv\<close> returns the text of the file, what it printed, and the exception that
  ended it, if any (the file then holds the rows written before).
\<close>

definition export_to_csv :: "commit list \<Rightarrow> str \<Rightarrow> str \<times> str list \<times> error option" where
  "export_to_csv commits filename =
     (case write_all (case csv_rows commits of (rows, e) \<Rightarrow> (csv_writerow fieldnames # rows, e)) of (ws, e) \<Rightarrow>
        (concat ws,
         (if e = None then [println (check_mark @ S '' Commits exported to '' @ filename)] else []),
         e))"

text \<open>
  Reading the file back, as \<open>csv.reader\<close> does for the same dialect: an automaton over
  the characters. Outside a quoted field CR, LF or CR LF ends the record (an empty line
  is an empty record); inside one, everything up to the closing quote belongs to the
  field and a doubled quote stands for one quote. A field may hold at most
  \<open>field_size_limit\<close> characters: adding one more raises \<open>csv.Error\<close>. The result is the
  records read and the exception that ended the reading, if any.
\<close>

datatype reader_state = StartRecord | AfterCR | StartField | InField | InQuotedField | QuoteInQuotedField

definition field_size_limit :: nat where
  "field_size_limit = 131072"

fun csv_reader :: "reader_state \<Rightarrow> str \<Rightarrow> str list \<Rightarrow> str \<Rightarrow> str list list \<times> error option" where
  "csv_reader st fld row [] =
     ((if st = StartRecord \<or> st = AfterCR then [] else [row @ [fld]]), None)"
| "csv_reader st fld row (c # cs) =
     (if st = InQuotedField
      then (if c = QUOTE then csv_reader QuoteInQuotedField fld row cs
            else if field_size_limit \<le> length fld then ([], Some CsvError)
            else csv_reader InQuotedField (fld @ [c]) row cs)
      else if st = AfterCR \<and> c = NL then csv_reader StartRecord [] [] cs
      else if c = CR \<or> c = NL
      then (case csv_reader (if c = CR then AfterCR else StartRecord) [] [] cs of (rows, e) \<Rightarrow>
              ((if st = StartRecord \<or> st = AfterCR then [] else row @ [fld]) # rows, e))
      else if st = QuoteInQuotedField \<and> c = QUOTE
      then (if field_size_limit \<le> length fld then ([], Some CsvError)
            else csv_reader InQuotedField (fld @ [c]) row cs)
      else if c = COMMA then csv_reader StartField [] (row @ [fld]) cs
      else if c = QUOTE \<and> st \<noteq> InField \<and> st \<noteq> QuoteInQuotedField then csv_reader InQuotedField [] row cs
      else if field_size_limit \<le> length fld then ([], Some CsvError)
      else csv_reader InField (fld @ [c]) row cs)"

definition csv_parse :: "str \<Rightarrow> str list list \<times> error option" where
  "csv_parse s = csv_reader StartRecord [] [] s"

section \<open>Markdown export\<close>

definition md_label :: "bool \<Rightarrow> str" where
  "md_label is_private = (if is_private then lock_emoji @ S '' Private'' else globe_emoji @ S '' Public'')"

definition md_heading :: "bool \<Rightarrow> str \<Rightarrow> str" where
  "md_heading is_private repo_name = [NL] @ S ''### '' @ md_label is_private @ S '' '' @ repo_name @ [NL, NL]"

definition md_commit_line :: "str \<Rightarrow> str \<Rightarrow> str \<Rightarrow> str \<Rightarrow> str" where
  "md_commit_line sha7 formatted_date commit_msg commit_url =
     S ''- **'' @ sha7 @ S ''** ('' @ formatted_date @ S ''): '' @ commit_msg @ S '' ['' @ arrow
       @ S '' View]('' @ commit_url @ S '')'' @ [NL]"

text \<open>
  The loop over the commits, one list entry per \<open>mdfile.write\<close>; \<open>current_repo\<close> is
  \<open>None\<close> before the first commit.
\<close>

fun md_commits :: "(str \<Rightarrow> str option) \<Rightarrow> str option \<Rightarrow> commit list \<Rightarrow> str list \<times> error option" where
  "md_commits reformat current_repo [] = ([], None)"
| "md_commits reformat current_repo (c # cs) =
     (case repository c of
        None \<Rightarrow> ([], Some KeyError)
      | Some r \<Rightarrow>
          (let repo_name = ref_full_name r;
               heading = (if Some repo_name \<noteq> current_repo then [md_heading (ref_private r) repo_name] else [])
           in case reformat (committer_date c) of
                None \<Rightarrow> (heading, Some ValueError)
              | Some formatted_date \<Rightarrow>
                  (case md_commits reformat (Some repo_name) cs of (ws, e) \<Rightarrow>
                     (heading @ [md_commit_line (take 7 (sha c)) formatted_date (first_line (message c))
                                   (commit_html_url c)] @ ws, e))))"

definition md_preamble :: "commit list \<Rightarrow> (str \<times> nat) list \<Rightarrow> str \<Rightarrow> str \<Rightarrow> str list" where
  "md_preamble commits repo_commit_count start_date end_date =
     [S ''# GitHub Commits Report'' @ [NL, NL],
      S ''**Period:** '' @ start_date @ S '' to '' @ end_date @ [NL, NL],
      S ''**Total Commits:** '' @ show_nat (length commits) @ [NL, NL],
      S ''**Repositories:** '' @ show_nat (length repo_commit_count) @ [NL, NL],
      S ''## Summary by Repository'' @ [NL, NL]]
     @ map (\<lambda>(rp, count). S ''- **'' @ rp @ S ''**: '' @ show_nat count @ S '' commits'' @ [NL])
           (breakdown repo_commit_count)
     @ [[NL] @ S ''---'' @ [NL, NL] @ S ''## Detailed Commits'' @ [NL, NL]]"

definition markdown_writes ::
  "(str \<Rightarrow> str option) \<Rightarrow> commit list \<Rightarrow> (str \<times> nat) list \<Rightarrow> str \<Rightarrow> str \<Rightarrow> str list \<times> error option" where
  "markdown_writes reformat commits repo_commit_count start_date end_date =
     write_all (case md_commits reformat None commits of (ws, e) \<Rightarrow>
                  (md_preamble commits repo_commit_count start_date end_date @ ws, e))"

definition export_to_markdown ::
  "(str \<Rightarrow> str option) \<Rightarrow> commit list \<Rightarrow> (str \<times> nat) list \<Rightarrow> str \<Rightarrow> str \<Rightarrow> str
     \<Rightarrow> str \<times> str list \<times> error option" where
  "export_to_markdown reformat commits repo_commit_count start_date end_date filename =
     (case markdown_writes reformat commits repo_commit_count start_date end_date of (ws, e) \<Rightarrow>
        (concat ws,
         (if e = None then [println (check_mark @ S '' Commits exported to '' @ filename)] else []),
         e))"

section \<open>Token validation\<close>

definition validate_token :: "server \<Rightarrow> str \<Rightarrow> io \<Rightarrow> (bool \<times> str) \<times> io" where
  "validate_token srv token w =
    (case send srv (GetUser token) w of (response, w1) \<Rightarrow>
       if status_code response = 200 then ((True, json_login response), w1)
       else if status_code response = 401 then ((False, S ''Invalid token''), w1)
       else ((False, S ''Error: '' @ show_nat (status_code response)), w1))"

section \<open>The program\<close>

text \<open>
  A run ends by \<open>sys.exit\<close>, by returning from \<open>main\<close> (exit code 0) or by an uncaught
  exception (a traceback and exit code 1). Its observable effects are the requests sent,
  the writes to standard output, the files written and the lines of standard input left
  unread.
\<close>

datatype outcome = Exit nat | Uncaught error


record run =
  outcome :: outcome
  requests :: "request list"
  stdout :: "str list"
  files :: "(str \<times> str) list"
  unread :: "str list"

definition banner :: "str list" where
  "banner = [println rule80, println (S ''GitHub All Repositories Commits Fetcher''), println rule80, println []]"

definition config_help :: "str list" where
  "config_help =
     [println (S ''ERROR: Please configure your GitHub Personal Access Token and Username''),
      println [],
      println (S ''Steps:''),
      println (S ''1. Copy the .env.example file to .env''),
      println (S ''2. Go to https://github.com/settings/tokens''),
      println (S ''3. Click '' @ [39] @ S ''Generate new token (classic)'' @ [39]),
      println (S ''4. Give it a name (e.g., '' @ [39] @ S ''Commits Fetcher'' @ [39] @ S '')''),
      println (S ''5. Select scope: '' @ [39] @ S ''repo'' @ [39] @ S '' (Full control of private repositories)''),
      println (S ''6. Click '' @ [39] @ S ''Generate token'' @ [39] @ S '' and copy it''),
      println (S ''7. Edit the .env file and paste your token and username''),
      println []]"

definition usage_message :: "str list" where
  "usage_message =
     [println (S ''Usage: python fetch_commits.py START_DATE END_DATE''),
      println (S ''Example: python fetch_commits.py 2024-01-01 2024-01-31''),
      println []]"

definition date_error_message :: str where
  "date_error_message = println (S ''ERROR: Dates must be in YYYY-MM-DD format'')"

definition token_error_message :: "str \<Rightarrow> str list" where
  "token_error_message reason =
     [println ([NL, NL] @ S ''ERROR: '' @ reason),
      println (S ''Please check your GitHub token and try again.'')]"

definition menu_text :: "str list" where
  "menu_text =
     [println ([NL] @ S ''Would you like to export the commits?''),
      println (S ''1. Export to CSV''),
      println (S ''2. Export to Markdown''),
      println (S ''3. Export to both CSV and Markdown''),
      println (S ''4. No export, exit''),
      [NL] @ S ''Enter your choice (1-4): '']"

definition csv_filename :: "str \<Rightarrow> str \<Rightarrow> str" where
  "csv_filename start_date end_date = S ''commits_'' @ start_date @ S ''_to_'' @ end_date @ S ''.csv''"

definition md_filename :: "str \<Rightarrow> str \<Rightarrow> str" where
  "md_filename start_date end_date = S ''commits_'' @ start_date @ S ''_to_'' @ end_date @ S ''.md''"

text \<open>
  The export menu: \<open>input\<close> writes the prompt and reads one line, raising EOFError at the
  end of the input. The result is what was printed, the files written, the exception
  that ended the loop (if any) and the input left.
\<close>

fun export_menu ::
  "(str \<Rightarrow> str option) \<Rightarrow> commit list \<Rightarrow> (str \<times> nat) list \<Rightarrow> str \<Rightarrow> str \<Rightarrow> str list
     \<Rightarrow> str list \<times> (str \<times> str) list \<times> error option \<times> str list" where
  "export_menu reformat commits repo_commit_count start_date end_date [] =
     (menu_text, [], Some EOFError, [])"
| "export_menu reformat commits repo_commit_count start_date end_date (line # rest) =
     (let choice = strip line
      in if choice = S ''1''
         then (case export_to_csv commits (csv_filename start_date end_date) of (content, printed, e) \<Rightarrow>
                 (menu_text @ printed, [(csv_filename start_date end_date, content)], e, rest))
         else if choice = S ''2''
         then (case export_to_markdown reformat commits repo_commit_count start_date end_date
                      (md_filename start_date end_date) of (content, printed, e) \<Rightarrow>
                 (menu_text @ printed, [(md_filename start_date end_date, content)], e, rest))
         else if choice = S ''3''
         then (case export_to_csv commits (csv_filename start_date end_date) of (content, printed, e) \<Rightarrow>
                 if e \<noteq> None
                 then (menu_text @ printed, [(csv_filename start_date end_date, content)], e, rest)
                 else (case export_to_markdown reformat commits repo_commit_count start_date end_date
                              (md_filename start_date end_date) of (content', printed', e') \<Rightarrow>
                         (menu_text @ printed @ printed',
                          [(csv_filename start_date end_date, content), (md_filename start_date end_date, content')],
                          e', rest)))
         else if choice = S ''4'' then (menu_text, [], None, rest)
         else (case export_menu reformat commits repo_commit_count start_date end_date rest of
                 (printed, written, e, rest') \<Rightarrow>
                   (menu_text @ [println (S ''Invalid choice. Please enter 1, 2, 3, or 4.'')] @ printed,
                    written, e, rest')))"

text \<open>
  \<open>main\<close>: the two environment values (\<open>None\<close> when unset), \<open>sys.argv\<close> with the script
  name first, the server and the lines of standard input. \<open>None\<close> is a run that never
  ends, which only pagination can cause.
\<close>

definition initial_io :: io where
  "initial_io = \<lparr>log = [], out = banner @ [S ''Validating GitHub token...'' @ S '' '']\<rparr>"

definition greeting :: "str \<Rightarrow> str" where
  "greeting login = println (check_mark @ [NL] @ S ''Authenticated as: '' @ login @ [NL])"

definition export_title :: "str list" where
  "export_title = [println ([NL] @ rule80), println (S ''EXPORT OPTIONS''), println rule80]"

definition done_message :: str where
  "done_message = println ([NL] @ S ''Done!'')"

definition falsy :: "str option \<Rightarrow> bool" where
  "falsy v \<longleftrightarrow> (case v of None \<Rightarrow> True | Some s \<Rightarrow> s = [])"

definition main ::
  "(str \<Rightarrow> bool) \<Rightarrow> (str \<Rightarrow> str option) \<Rightarrow> str option \<Rightarrow> str option \<Rightarrow> str list \<Rightarrow> server \<Rightarrow> str list
     \<Rightarrow> run option" where
  "main parse_day reformat GITHUB_TOKEN USERNAME argv srv stdin =
    (if falsy GITHUB_TOKEN \<or> falsy USERNAME
     then Some \<lparr>outcome = Exit 1, requests = [], stdout = banner @ config_help, files = [], unread = stdin\<rparr>
     else
      (let token = the GITHUB_TOKEN; username = the USERNAME
       in case validate_token srv token initial_io of ((valid, result), w1) \<Rightarrow>
         if \<not> valid
         then Some \<lparr>outcome = Exit 1, requests = log w1, stdout = out w1 @ token_error_message result,
                     files = [], unread = stdin\<rparr>
         else
          (let w2 = say [greeting result] w1
           in if length argv \<noteq> 3
              then Some \<lparr>outcome = Exit 1, requests = log w2, stdout = out w2 @ usage_message,
                          files = [], unread = stdin\<rparr>
              else
               (let start_date = argv ! 1; end_date = argv ! 2
                in if \<not> (parse_day start_date \<and> parse_day end_date)
                   then Some \<lparr>outcome = Exit 1, requests = log w2, stdout = out w2 @ [date_error_message],
                               files = [], unread = stdin\<rparr>
                   else
                    (case fetch_all_commits srv username token start_date end_date w2 of
                       None \<Rightarrow> None
                     | Some (Inl e, w3) \<Rightarrow>
                         Some \<lparr>outcome = Uncaught e, requests = log w3, stdout = out w3,
                                files = [], unread = stdin\<rparr>
                     | Some (Inr (commits, repo_commit_count), w3) \<Rightarrow>
                         (case display_commits reformat commits repo_commit_count of
                            (shown, Some e) \<Rightarrow>
                              Some \<lparr>outcome = Uncaught e, requests = log w3, stdout = out w3 @ shown,
                                     files = [], unread = stdin\<rparr>
                          | (shown, None) \<Rightarrow>
                              if commits \<noteq> []
                              then (case export_menu reformat commits repo_commit_count start_date end_date stdin of
                                      (printed, written, Some e, rest) \<Rightarrow>
                                        Some \<lparr>outcome = Uncaught e, requests = log w3,
                                               stdout = out w3 @ shown
                                                 @ export_title @ printed,
                                               files = written, unread = rest\<rparr>
                                    | (printed, written, None, rest) \<Rightarrow>
                                        Some \<lparr>outcome = Exit 0, requests = log w3,
                                               stdout = out w3 @ shown
                                                 @ export_title @ printed @ [done_message],
                                               files = written, unread = rest\<rparr>)
                              else Some \<lparr>outcome = Exit 0, requests = log w3,
                                          stdout = out w3 @ shown @ [done_message],
                                          files = [], unread = stdin\<rparr>))))))"

section \<open>Notions used in the statements\<close>

text \<open>
  \<open>paged srv rq body hist page pages\<close>: starting from the history \<open>hist\<close>, the server
  answers the requests for pages \<open>page\<close>, \<open>page + 1\<close>, ... with status 200 and the
  batches \<open>pages\<close>, in this order. \<open>final_short pages\<close>: every page but the last is full
  (at least 100 items) and the last one is short or empty.
\<close>

fun paged :: "server \<Rightarrow> (nat \<Rightarrow> request) \<Rightarrow> (response \<Rightarrow> 'a list) \<Rightarrow> request list \<Rightarrow> nat \<Rightarrow> 'a list list \<Rightarrow> bool" where
  "paged srv rq body hist page [] = True"
| "paged srv rq body hist page (b # bs) =
     (status_code (srv (hist @ [rq page])) = 200 \<and> body (srv (hist @ [rq page])) = b \<and>
      paged srv rq body (hist @ [rq page]) (page + 1) bs)"

definition demo_repo :: repo where
  "demo_repo = \<lparr>full_name = S ''octo/app'', private_flag = True, html_url = S ''https://github.com/octo/app''\<rparr>"

definition demo_commit :: commit where
  "demo_commit = \<lparr>sha = S ''0123456789abcdef'', message = S ''Fix parser'' @ [NL] @ S ''More detail'',
     committer_date = S ''2024-01-15T10:30:00Z'', commit_html_url = S ''https://github.com/octo/app/commit/0123456'',
     repository = None\<rparr>"

definition reply :: "nat \<Rightarrow> str \<Rightarrow> repo list \<Rightarrow> commit list \<Rightarrow> response" where
  "reply code login rs cs = \<lparr>status_code = code, json_login = login, json_repos = rs, json_commits = cs, json_text = []\<rparr>"

definition paged_server :: server where
  "paged_server hist =
     (case last hist of
        GetUser t \<Rightarrow> reply 200 (S ''octo'') [] []
      | GetRepos t p \<Rightarrow> reply 200 [] (if p = 1 then replicate 100 demo_repo else [demo_repo]) []
      | GetCommits t ow rp au si un p \<Rightarrow> reply 200 [] [] (if p = 1 then replicate 100 demo_commit else []))"

definition final_short :: "'a list list \<Rightarrow> bool" where
  "final_short pages \<longleftrightarrow> pages \<noteq> [] \<and> list_all (\<lambda>b. 100 \<le> length b) (butlast pages) \<and> length (last pages) < 100"


definition other_repo :: repo where
  "other_repo = \<lparr>full_name = S ''octo/lib'', private_flag = False, html_url = S ''https://github.com/octo/lib''\<rparr>"

definition forbidding_server :: server where
  "forbidding_server hist =
     (case last hist of
        GetUser t \<Rightarrow> reply 200 (S ''octo'') [] []
      | GetRepos t p \<Rightarrow> reply 200 [] [demo_repo, other_repo] []
      | GetCommits t ow rp au si un p \<Rightarrow>
          (if rp = S ''app'' then reply 403 [] [] [] else reply 200 [] [] [demo_commit]))"


definition rejecting_server :: server where
  "rejecting_server hist = reply 401 [] [] []"




fun aligned :: "str \<Rightarrow> str \<Rightarrow> bool" where
  "aligned [] [] \<longleftrightarrow> True"
| "aligned (x # xs) (y # ys) \<longleftrightarrow> (is_digit x \<and> is_digit y \<or> x = y \<and> \<not> is_digit x) \<and> aligned xs ys"
| "aligned _ _ \<longleftrightarrow> False"

definition newer_commit :: commit where
  "newer_commit = \<lparr>sha = S ''fedcba9876543210'', message = S ''Add feature'',
     committer_date = S ''2024-01-20T08:00:00Z'', commit_html_url = S ''https://github.com/octo/lib/commit/fedcba9'',
     repository = None\<rparr>"

definition two_repo_server :: server where
  "two_repo_server hist =
     (case last hist of
        GetUser t \<Rightarrow> reply 200 (S ''octo'') [] []
      | GetRepos t p \<Rightarrow> reply 200 [] [demo_repo, other_repo] []
      | GetCommits t ow rp au si un p \<Rightarrow>
          (if rp = S ''app'' then reply 200 [] [] [demo_commit] else reply 200 [] [] [newer_commit]))"

definition quiet_server :: server where
  "quiet_server hist =
     (case last hist of
        GetUser t \<Rightarrow> reply 200 (S ''octo'') [] []
      | GetRepos t p \<Rightarrow> reply 200 [] [demo_repo] []
      | GetCommits t ow rp au si un p \<Rightarrow> reply 200 [] [] [])"





text \<open>
  Headings of the Markdown export. \<open>heading_write\<close> recognises the write that emits a
  repository heading; \<open>heading_lines\<close> counts the lines of a text that begin with
  \<open>###\<close> and a space; \<open>single_line s\<close>: \<open>s\<close> holds no newline; \<open>plain_commit\<close>: the
  fields of a commit that the export interpolates hold no newline.
\<close>

definition repo_name_of :: "commit \<Rightarrow> str" where
  "repo_name_of c = (case repository c of None \<Rightarrow> [] | Some r \<Rightarrow> ref_full_name r)"

definition heading_write :: "str \<Rightarrow> bool" where
  "heading_write chunk \<longleftrightarrow> take 5 chunk = [NL] @ S ''### ''"

definition heading_line :: "str \<Rightarrow> bool" where
  "heading_line l \<longleftrightarrow> take 4 l = S ''### ''"

definition heading_lines :: "str \<Rightarrow> nat" where
  "heading_lines doc = length (filter heading_line (split_on NL doc))"

definition single_line :: "str \<Rightarrow> bool" where
  "single_line s \<longleftrightarrow> NL \<notin> set s"

definition previous :: "str option \<Rightarrow> str list" where
  "previous cur = (case cur of None \<Rightarrow> [] | Some n \<Rightarrow> [n])"

definition unlines :: "str list \<Rightarrow> str" where
  "unlines ls = concat (map (\<lambda>l. l @ [NL]) ls)"

definition plain_commit :: "(str \<Rightarrow> str option) \<Rightarrow> commit \<Rightarrow> bool" where
  "plain_commit reformat c \<longleftrightarrow>
     single_line (repo_name_of c) \<and> single_line (take 7 (sha c)) \<and> single_line (commit_html_url c)
     \<and> (case reformat (committer_date c) of None \<Rightarrow> True | Some f \<Rightarrow> single_line f)"

definition latest_commit :: commit where
  "latest_commit = \<lparr>sha = S ''89abcdef01234567'', message = S ''Release'',
     committer_date = S ''2024-01-25T09:00:00Z'', commit_html_url = S ''https://github.com/octo/app/commit/89abcde'',
     repository = None\<rparr>"

definition interleaved :: "commit list" where
  "interleaved = [attach demo_repo latest_commit, attach other_repo newer_commit, attach demo_repo demo_commit]"


text \<open>
  \<open>csv_cells c\<close> is the row that \<open>export_to_csv\<close> writes for the commit \<open>c\<close>;
  \<open>at_field_start\<close> holds of the reader states in which a field begins.
\<close>

definition csv_cells :: "commit \<Rightarrow> str list" where
  "csv_cells c = (case csv_record c of Inl e \<Rightarrow> [] | Inr cells \<Rightarrow> cells)"

definition at_field_start :: "reader_state \<Rightarrow> bool" where
  "at_field_start st \<longleftrightarrow> st = StartRecord \<or> st = AfterCR \<or> st = StartField"

definition tricky_commit :: commit where
  "tricky_commit = \<lparr>sha = S ''0123456789abcdef'',
     message = S ''Say '' @ [QUOTE] @ S ''hi'' @ [QUOTE] @ S '', then'' @ [NL] @ S ''stop'',
     committer_date = S ''2024-01-15T10:30:00Z'', commit_html_url = S ''https://github.com/octo/app/commit/0123456'',
     repository = None\<rparr>"



text \<open>\<open>encodable_commit\<close>: the fields of a commit that the Markdown export interpolates
  hold no surrogate.\<close>

definition encodable_commit :: "(str \<Rightarrow> str option) \<Rightarrow> commit \<Rightarrow> bool" where
  "encodable_commit reformat c \<longleftrightarrow>
     utf8_ok (repo_name_of c) \<and> utf8_ok (take 7 (sha c)) \<and> utf8_ok (commit_html_url c)
     \<and> utf8_ok (message c)
     \<and> (case reformat (committer_date c) of None \<Rightarrow> True | Some f \<Rightarrow> utf8_ok f)"

text \<open>
  \<open>csv_safe\<close>: a cell that can be encoded and that the reader's field limit admits.
  \<open>surrogate_commit\<close> has a message that is a lone surrogate, as the JSON escape
  \<open>\ud83d\<close> decodes to.
\<close>

definition csv_safe :: "str \<Rightarrow> bool" where
  "csv_safe cell \<longleftrightarrow> utf8_ok cell \<and> length cell \<le> field_size_limit"

definition surrogate_commit :: commit where
  "surrogate_commit = \<lparr>sha = S ''0123456789abcdef'', message = [55357],
     committer_date = S ''2024-01-15T10:30:00Z'', commit_html_url = S ''https://github.com/octo/app/commit/0123456'',
     repository = None\<rparr>"

section \<open>Facts about the sample data\<close>

lemma split_demo_names:
  "split_on SLASH (S ''octo/app'') = [S ''octo'', S ''app'']"
  "split_on SLASH (S ''octo/lib'') = [S ''octo'', S ''lib'']"
  by (simp_all add: S_def SLASH_def)

lemma demo_dates:
  "committer_date demo_commit < committer_date newer_commit"
  by (simp add: demo_commit_def newer_commit_def S_def)

lemma app_not_lib: "S ''lib'' \<noteq> S ''app''" "S ''octo/lib'' \<noteq> S ''octo/app''" "S ''octo/app'' \<noteq> S ''octo/lib''"
  by (simp_all add: S_def)

section \<open>Pagination\<close>

lemma repos_loop_pages:
  assumes "paged srv (GetRepos token) json_repos (log w) p (bs @ [b])"
    and "list_all (\<lambda>x. 100 \<le> length x) bs" and "length b < 100"
  shows "repos_loop srv token p acc w =
           Some (acc @ concat bs @ b, w\<lparr>log := log w @ map (GetRepos token) [p ..< p + length bs + 1]\<rparr>)"
  using assms
proof (induction bs arbitrary: p acc w)
  case Nil
  then show ?case
    by (subst repos_loop.simps) (auto simp: send_def Let_def)
next
  case (Cons x bs)
  have x: "x \<noteq> []" "\<not> length x < 100" using Cons.prems(2) by auto
  let ?w1 = "w\<lparr>log := log w @ [GetRepos token p]\<rparr>"
  have step: "repos_loop srv token p acc w = repos_loop srv token (p + 1) (acc @ x) ?w1"
    using Cons.prems(1) x by (subst repos_loop.simps) (simp add: send_def Let_def)
  have "repos_loop srv token (p + 1) (acc @ x) ?w1 =
          Some ((acc @ x) @ concat bs @ b, ?w1\<lparr>log := log ?w1 @ map (GetRepos token) [p + 1 ..< p + 1 + length bs + 1]\<rparr>)"
    using Cons.prems by (intro Cons.IH) auto
  moreover have "[p ..< p + length (x # bs) + 1] = p # [p + 1 ..< p + 1 + length bs + 1]"
    by (subst upt_conv_Cons) (simp_all del: upt_Suc)
  ultimately show ?case
    unfolding step by (simp del: upt_Suc)
qed

lemma commits_loop_pages:
  assumes "paged srv rq json_commits (log w) p (bs @ [b])"
    and "list_all (\<lambda>x. 100 \<le> length x) bs" and "length b < 100"
  shows "commits_loop srv rq p acc w =
           Some (acc @ concat bs @ b, w\<lparr>log := log w @ map rq [p ..< p + length bs + 1]\<rparr>)"
  using assms
proof (induction bs arbitrary: p acc w)
  case Nil
  then show ?case
    by (subst commits_loop.simps) (auto simp: send_def Let_def)
next
  case (Cons x bs)
  have x: "x \<noteq> []" "\<not> length x < 100" using Cons.prems(2) by auto
  let ?w1 = "w\<lparr>log := log w @ [rq p]\<rparr>"
  have step: "commits_loop srv rq p acc w = commits_loop srv rq (p + 1) (acc @ x) ?w1"
    using Cons.prems(1) x by (subst commits_loop.simps) (simp add: send_def Let_def)
  have "commits_loop srv rq (p + 1) (acc @ x) ?w1 =
          Some ((acc @ x) @ concat bs @ b, ?w1\<lparr>log := log ?w1 @ map rq [p + 1 ..< p + 1 + length bs + 1]\<rparr>)"
    using Cons.prems by (intro Cons.IH) auto
  moreover have "[p ..< p + length (x # bs) + 1] = p # [p + 1 ..< p + 1 + length bs + 1]"
    by (subst upt_conv_Cons) (simp_all del: upt_Suc)
  ultimately show ?case
    unfolding step by (simp del: upt_Suc)
qed


lemma final_shortE:
  assumes "final_short pages"
  obtains bs b where "pages = bs @ [b]" "list_all (\<lambda>x. 100 \<le> length x) bs" "length b < 100"
proof -
  from assms have "pages = butlast pages @ [last pages]"
    "list_all (\<lambda>x. 100 \<le> length x) (butlast pages)" "length (last pages) < 100"
    by (simp_all add: final_short_def)
  then show thesis by (rule that)
qed

lemma repos_loop_final_short:
  assumes "final_short pages" and "paged srv (GetRepos token) json_repos (log w) p pages"
  shows "repos_loop srv token p acc w =
           Some (acc @ concat pages, w\<lparr>log := log w @ map (GetRepos token) [p ..< p + length pages]\<rparr>)"
proof -
  from assms(1) obtain bs b where p: "pages = bs @ [b]" "list_all (\<lambda>x. 100 \<le> length x) bs" "length b < 100"
    by (rule final_shortE)
  from assms(2) have "paged srv (GetRepos token) json_repos (log w) p (bs @ [b])"
    unfolding p(1) .
  from repos_loop_pages [OF this p(2,3), of acc] show ?thesis
    unfolding p(1) by (simp del: upt_Suc)
qed

lemma commits_loop_final_short:
  assumes "final_short pages" and "paged srv rq json_commits (log w) p pages"
  shows "commits_loop srv rq p acc w =
           Some (acc @ concat pages, w\<lparr>log := log w @ map rq [p ..< p + length pages]\<rparr>)"
proof -
  from assms(1) obtain bs b where p: "pages = bs @ [b]" "list_all (\<lambda>x. 100 \<le> length x) bs" "length b < 100"
    by (rule final_shortE)
  from assms(2) have "paged srv rq json_commits (log w) p (bs @ [b])"
    unfolding p(1) .
  from commits_loop_pages [OF this p(2,3), of acc] show ?thesis
    unfolding p(1) by (simp del: upt_Suc)
qed

text \<open>
  C3: when the server answers the page requests with status 200 and a sequence of pages
  whose last page is the first short or empty one, both pagination loops return the
  concatenation of the pages in the order received (so \<open>N\<close> items, the sum of the page
  sizes) and the requests sent are exactly those for pages \<open>1\<close> to the number of pages.
\<close>

theorem pagination_collects_every_page:
  assumes "final_short rpages"
    and "paged srv (GetRepos token) json_repos (log w) 1 rpages"
    and "final_short cpages"
    and "split_on SLASH repo_full_name = [owner, rp]"
    and "paged srv' (commits_request token' username owner rp start_date end_date) json_commits (log w') 1 cpages"
  shows "(\<exists>w1. get_all_repositories srv token w = Some (concat rpages, w1)
            \<and> log w1 = log w @ map (GetRepos token) [1 ..< 1 + length rpages])
       \<and> length (concat rpages) = sum_list (map length rpages)
       \<and> get_commits_from_repo srv' username token' repo_full_name start_date end_date w'
           = Some (Inr (concat cpages),
                   w'\<lparr>log := log w' @ map (commits_request token' username owner rp start_date end_date)
                                        [1 ..< 1 + length cpages]\<rparr>)
       \<and> length (concat cpages) = sum_list (map length cpages)"
proof -
  let ?w0 = "say [println (S ''Fetching your repositories (including private)...'')] w"
  have "paged srv (GetRepos token) json_repos (log ?w0) 1 rpages"
    using assms(2) by (simp add: say_def)
  from repos_loop_final_short [OF assms(1) this, of "[]"]
  have A: "\<exists>w1. get_all_repositories srv token w = Some (concat rpages, w1)
            \<and> log w1 = log w @ map (GetRepos token) [1 ..< 1 + length rpages]"
    by (simp add: get_all_repositories_def say_def del: upt_Suc)
  from commits_loop_final_short [OF assms(3,5), of "[]"]
  have B: "get_commits_from_repo srv' username token' repo_full_name start_date end_date w'
           = Some (Inr (concat cpages),
                   w'\<lparr>log := log w' @ map (commits_request token' username owner rp start_date end_date)
                                        [1 ..< 1 + length cpages]\<rparr>)"
    using assms(4) by (simp add: get_commits_from_repo_def del: upt_Suc)
  show ?thesis using A B by (simp add: length_concat del: upt_Suc)
qed


lemma paged_server_simps:
  "paged_server (h @ [GetRepos t p]) = reply 200 [] (if p = 1 then replicate 100 demo_repo else [demo_repo]) []"
  "paged_server (h @ [GetCommits t ow rp au si un p]) = reply 200 [] [] (if p = 1 then replicate 100 demo_commit else [])"
  by (simp_all add: paged_server_def)

theorem pagination_collects_every_page_witness:
  "final_short [replicate 100 demo_repo, [demo_repo]]
   \<and> final_short [replicate 100 demo_commit, []]
   \<and> (\<exists>w1. get_all_repositories paged_server (S ''tok'') \<lparr>log = [], out = []\<rparr>
               = Some (replicate 100 demo_repo @ [demo_repo], w1)
            \<and> log w1 = [GetRepos (S ''tok'') 1, GetRepos (S ''tok'') 2])
   \<and> get_commits_from_repo paged_server (S ''octo'') (S ''tok'') (S ''octo/app'') (S ''2024-01-01'') (S ''2024-01-31'')
         \<lparr>log = [], out = []\<rparr>
       = Some (Inr (replicate 100 demo_commit),
               \<lparr>log = map (commits_request (S ''tok'') (S ''octo'') (S ''octo'') (S ''app'') (S ''2024-01-01'') (S ''2024-01-31'')) [1, 2],
                out = []\<rparr>)"
proof -
  have h1: "final_short [replicate 100 demo_repo, [demo_repo]]"
    by (simp add: final_short_def)
  have h2: "paged paged_server (GetRepos (S ''tok'')) json_repos (log \<lparr>log = [], out = []\<rparr>) 1
              [replicate 100 demo_repo, [demo_repo]]"
    using paged_server_simps(1) [of "[]"] paged_server_simps(1) [of "[GetRepos (S ''tok'') 1]"]
    by (simp add: reply_def)
  have h3: "final_short [replicate 100 demo_commit, []]"
    by (simp add: final_short_def)
  have h4: "split_on SLASH (S ''octo/app'') = [S ''octo'', S ''app'']"
    by (simp add: S_def SLASH_def)
  let ?rq = "commits_request (S ''tok'') (S ''octo'') (S ''octo'') (S ''app'') (S ''2024-01-01'') (S ''2024-01-31'')"
  have h5: "paged paged_server ?rq json_commits (log \<lparr>log = [], out = []\<rparr>) 1 [replicate 100 demo_commit, []]"
    using paged_server_simps(2) [of "[]"] paged_server_simps(2) [of "[?rq 1]"]
    by (simp add: reply_def commits_request_def)
  show ?thesis
    using h1 h3 pagination_collects_every_page [OF h1 h2 h3 h4 h5]
    by (simp add: numeral_2_eq_2)
qed

section \<open>A failing repository does not stop the run\<close>

lemma commits_loop_non_200:
  assumes "paged srv rq json_commits (log w) p pages"
    and "list_all (\<lambda>x. 100 \<le> length x) pages"
    and "status_code (srv (log w @ map rq [p ..< p + length pages + 1])) \<noteq> 200"
  shows "commits_loop srv rq p acc w =
           Some (acc @ concat pages, w\<lparr>log := log w @ map rq [p ..< p + length pages + 1]\<rparr>)"
  using assms
proof (induction pages arbitrary: p acc w)
  case Nil
  then show ?case
    by (subst commits_loop.simps) (simp add: send_def Let_def)
next
  case (Cons x bs)
  have x: "x \<noteq> []" "\<not> length x < 100" using Cons.prems(2) by auto
  let ?w1 = "w\<lparr>log := log w @ [rq p]\<rparr>"
  have upt: "[p ..< p + length (x # bs) + 1] = p # [p + 1 ..< p + 1 + length bs + 1]"
    by (subst upt_conv_Cons) (simp_all del: upt_Suc)
  have step: "commits_loop srv rq p acc w = commits_loop srv rq (p + 1) (acc @ x) ?w1"
    using Cons.prems(1) x by (subst commits_loop.simps) (simp add: send_def Let_def)
  have p1: "paged srv rq json_commits (log ?w1) (p + 1) bs"
    using Cons.prems(1) by simp
  have p2: "list_all (\<lambda>x. 100 \<le> length x) bs"
    using Cons.prems(2) by simp
  have p3: "status_code (srv (log ?w1 @ map rq [p + 1 ..< p + 1 + length bs + 1])) \<noteq> 200"
    using Cons.prems(3) unfolding upt by (simp del: upt_Suc)
  have "commits_loop srv rq (p + 1) (acc @ x) ?w1 =
          Some ((acc @ x) @ concat bs, ?w1\<lparr>log := log ?w1 @ map rq [p + 1 ..< p + 1 + length bs + 1]\<rparr>)"
    by (rule Cons.IH [OF p1 p2 p3])
  then show ?case
    unfolding step upt by (simp del: upt_Suc)
qed

lemma non_200_step:
  fixes srv :: server and pages :: "commit list list" and w :: io and rp :: repo and i n :: nat
    and token username owner nm start_date end_date :: str
  defines "w1 \<equiv> say [progress_line i n rp] w"
    and "rq \<equiv> commits_request token username owner nm start_date end_date"
  defines "w2 \<equiv> w1\<lparr>log := log w1 @ map rq [1 ..< 1 + length pages + 1]\<rparr>"
  assumes "split_on SLASH (full_name rp) = [owner, nm]"
    and "list_all (\<lambda>b. 100 \<le> length b) pages"
    and "paged srv rq json_commits (log w1) 1 pages"
    and "status_code (srv (log w2)) \<noteq> 200"
  shows "get_commits_from_repo srv username token (full_name rp) start_date end_date w1
           = Some (Inr (concat pages), w2)
       \<and> out w2 = out w1
       \<and> fetch_repos srv username token start_date end_date i n (rp # rest) all_commits counts w
           = fetch_repos srv username token start_date end_date (i + 1) n rest
               (all_commits @ map (attach rp) (concat pages))
               (if concat pages = [] then counts
                else AList.update (full_name rp) (length (concat pages)) counts)
               (say [if concat pages = [] then zero_line else count_line (length (concat pages))] w2)"
proof -
  have "status_code (srv (log w1 @ map rq [1 ..< 1 + length pages + 1])) \<noteq> 200"
    using assms(7) by (simp add: w2_def del: upt_Suc)
  from commits_loop_non_200 [OF assms(6,5) this, of "[]"]
  have loop: "commits_loop srv rq 1 [] w1 = Some (concat pages, w2)"
    by (simp add: w2_def del: upt_Suc)
  then have A: "get_commits_from_repo srv username token (full_name rp) start_date end_date w1
           = Some (Inr (concat pages), w2)"
    using assms(4) by (simp add: get_commits_from_repo_def rq_def)
  have B: "out w2 = out w1" by (simp add: w2_def)
  show ?thesis
  proof (cases "concat pages = []")
    case True
    with A B show ?thesis by (simp add: w1_def Let_def del: concat_eq_Nil_conv)
  next
    case False
    with A B show ?thesis by (simp add: w1_def Let_def del: concat_eq_Nil_conv)
  qed
qed

text \<open>
  C4: when a page request of the commit pagination of a repository is answered with a
  status other than 200 (the pages before it being full), \<open>get_commits_from_repo\<close>
  returns normally with the commits collected so far, possibly none, and prints nothing;
  the loop over the repositories then goes on with the remaining repositories: when the
  next repository answers with pages that end in a short one, its requests are sent
  after the failed one and its commits and count are part of the result.
\<close>

theorem non_200_ends_one_repository_only:
  fixes srv :: server and pages pages2 :: "commit list list" and w :: io and rp rp2 :: repo and i n :: nat
    and token username owner nm owner2 nm2 start_date end_date :: str and counts :: "(str \<times> nat) list"
  defines "w1 \<equiv> say [progress_line i n rp] w"
    and "rq \<equiv> commits_request token username owner nm start_date end_date"
    and "rq2 \<equiv> commits_request token username owner2 nm2 start_date end_date"
  defines "w2 \<equiv> w1\<lparr>log := log w1 @ map rq [1 ..< 1 + length pages + 1]\<rparr>"
    and "counts1 \<equiv> (if concat pages = [] then counts
                      else AList.update (full_name rp) (length (concat pages)) counts)"
  defines "w3 \<equiv> say [progress_line (i + 1) n rp2]
                    (say [if concat pages = [] then zero_line else count_line (length (concat pages))] w2)"
  assumes "split_on SLASH (full_name rp) = [owner, nm]"
    and "list_all (\<lambda>b. 100 \<le> length b) pages"
    and "paged srv rq json_commits (log w1) 1 pages"
    and "status_code (srv (log w2)) \<noteq> 200"
  shows "get_commits_from_repo srv username token (full_name rp) start_date end_date w1
           = Some (Inr (concat pages), w2)
       \<and> out w2 = out w1
       \<and> fetch_repos srv username token start_date end_date i n (rp # rest) all_commits counts w
           = fetch_repos srv username token start_date end_date (i + 1) n rest
               (all_commits @ map (attach rp) (concat pages)) counts1
               (say [if concat pages = [] then zero_line else count_line (length (concat pages))] w2)
       \<and> (split_on SLASH (full_name rp2) = [owner2, nm2] \<and> final_short pages2
            \<and> paged srv rq2 json_commits (log w3) 1 pages2 \<longrightarrow>
          fetch_repos srv username token start_date end_date i n [rp, rp2] all_commits counts w
            = Some (Inr (all_commits @ map (attach rp) (concat pages) @ map (attach rp2) (concat pages2),
                         (if concat pages2 = [] then counts1
                          else AList.update (full_name rp2) (length (concat pages2)) counts1)),
                    say [if concat pages2 = [] then zero_line else count_line (length (concat pages2))]
                      (w3\<lparr>log := log w3 @ map rq2 [1 ..< 1 + length pages2]\<rparr>)))"
proof -
  note step = non_200_step [OF assms(7,8) assms(9) [unfolded w1_def rq_def]
      assms(10) [unfolded w2_def w1_def rq_def]]
  have A: "get_commits_from_repo srv username token (full_name rp) start_date end_date w1 = Some (Inr (concat pages), w2)"
    and B: "out w2 = out w1"
    and C: "fetch_repos srv username token start_date end_date i n (rp # rest) all_commits counts w
           = fetch_repos srv username token start_date end_date (i + 1) n rest
               (all_commits @ map (attach rp) (concat pages)) counts1
               (say [if concat pages = [] then zero_line else count_line (length (concat pages))] w2)"
    for rest
    using step unfolding w1_def w2_def rq_def counts1_def by blast+
  have D: "fetch_repos srv username token start_date end_date i n [rp, rp2] all_commits counts w
            = Some (Inr (all_commits @ map (attach rp) (concat pages) @ map (attach rp2) (concat pages2),
                         (if concat pages2 = [] then counts1
                          else AList.update (full_name rp2) (length (concat pages2)) counts1)),
                    say [if concat pages2 = [] then zero_line else count_line (length (concat pages2))]
                      (w3\<lparr>log := log w3 @ map rq2 [1 ..< 1 + length pages2]\<rparr>))"
    if s: "split_on SLASH (full_name rp2) = [owner2, nm2]" and f: "final_short pages2"
      and p: "paged srv rq2 json_commits (log w3) 1 pages2"
  proof -
    from commits_loop_final_short [OF f p, of "[]"]
    have "commits_loop srv rq2 1 [] w3
        = Some (concat pages2, w3\<lparr>log := log w3 @ map rq2 [1 ..< 1 + length pages2]\<rparr>)"
      by simp
    then have g: "get_commits_from_repo srv username token (full_name rp2) start_date end_date w3
        = Some (Inr (concat pages2), w3\<lparr>log := log w3 @ map rq2 [1 ..< 1 + length pages2]\<rparr>)"
      using s by (simp add: get_commits_from_repo_def rq2_def)
    show ?thesis
      unfolding C [of "[rp2]"]
      using g [unfolded w3_def]
      by (cases "concat pages2 = []")
         (simp_all add: Let_def w3_def del: concat_eq_Nil_conv upt_Suc)
  qed
  show ?thesis using A B C D by blast
qed


theorem non_200_ends_one_repository_only_witness:
  "status_code (forbidding_server
       [commits_request (S ''tok'') (S ''octo'') (S ''octo'') (S ''app'') (S ''2024-01-01'') (S ''2024-01-31'') 1]) = 403
   \<and> final_short [[demo_commit]]
   \<and> get_commits_from_repo forbidding_server (S ''octo'') (S ''tok'') (full_name demo_repo)
         (S ''2024-01-01'') (S ''2024-01-31'') (say [progress_line 1 2 demo_repo] \<lparr>log = [], out = []\<rparr>)
       = Some (Inr [],
               \<lparr>log = [commits_request (S ''tok'') (S ''octo'') (S ''octo'') (S ''app'') (S ''2024-01-01'') (S ''2024-01-31'') 1],
                out = [progress_line 1 2 demo_repo]\<rparr>)
   \<and> fetch_repos forbidding_server (S ''octo'') (S ''tok'') (S ''2024-01-01'') (S ''2024-01-31'') 1 2
         [demo_repo, other_repo] [] [] \<lparr>log = [], out = []\<rparr>
       = Some (Inr ([attach other_repo demo_commit], [(S ''octo/lib'', 1)]),
           \<lparr>log = [commits_request (S ''tok'') (S ''octo'') (S ''octo'') (S ''app'') (S ''2024-01-01'') (S ''2024-01-31'') 1,
                   commits_request (S ''tok'') (S ''octo'') (S ''octo'') (S ''lib'') (S ''2024-01-01'') (S ''2024-01-31'') 1],
            out = [progress_line 1 2 demo_repo, zero_line, progress_line 2 2 other_repo, count_line 1]\<rparr>)"
proof -
  let ?rq = "commits_request (S ''tok'') (S ''octo'') (S ''octo'') (S ''app'') (S ''2024-01-01'') (S ''2024-01-31'')"
  let ?rq2 = "commits_request (S ''tok'') (S ''octo'') (S ''octo'') (S ''lib'') (S ''2024-01-01'') (S ''2024-01-31'')"
  let ?w = "\<lparr>log = [], out = []\<rparr>"
  have h1: "split_on SLASH (full_name demo_repo) = [S ''octo'', S ''app'']"
    by (simp add: demo_repo_def split_demo_names)
  have h2: "list_all (\<lambda>b. 100 \<le> length b) ([] :: commit list list)"
    by simp
  have h3: "paged forbidding_server ?rq json_commits (log (say [progress_line 1 2 demo_repo] ?w)) 1 []"
    by simp
  have s: "status_code (forbidding_server [?rq 1]) = 403"
    by (simp add: forbidding_server_def commits_request_def reply_def)
  have h4: "status_code (forbidding_server (log ((say [progress_line 1 2 demo_repo] ?w)
              \<lparr>log := log (say [progress_line 1 2 demo_repo] ?w) @ map ?rq [1 ..< 1 + length ([] :: commit list list) + 1]\<rparr>)))
            \<noteq> 200"
    using s by (simp add: say_def)
  have k1: "split_on SLASH (full_name other_repo) = [S ''octo'', S ''lib'']"
    by (simp add: other_repo_def split_demo_names)
  have k2: "final_short [[demo_commit]]"
    by (simp add: final_short_def)
  have k3: "paged forbidding_server ?rq2 json_commits [?rq 1] 1 [[demo_commit]]"
    by (simp add: forbidding_server_def commits_request_def reply_def app_not_lib)
  from non_200_ends_one_repository_only [OF h1 h2 h3 h4, of "[]" "[]" "[]" other_repo "S ''octo''" "S ''lib''" "[[demo_commit]]"]
    s k1 k2 k3
  show ?thesis
    by (simp add: say_def numeral_2_eq_2 other_repo_def del: fetch_repos.simps)
qed

section \<open>Token validation and argument errors\<close>

text \<open>
  C5: \<open>validate_token\<close> sends one identity request; it succeeds exactly when the answer
  has status 200, returning the login name; on 401 it fails with the reason
  \<open>Invalid token\<close>, on any other status with a reason that holds the status code. A run
  (with token and username configured) whose token is answered with 401 prints the
  invalid-token message, exits with code 1 and has sent the identity request only.
\<close>

theorem validate_token_outcomes:
  fixes srv srv' :: server and token tok user :: str and w :: io
  defines "r \<equiv> srv (log w @ [GetUser token])"
  shows "(fst (fst (validate_token srv token w)) \<longleftrightarrow> status_code r = 200)
       \<and> (status_code r = 200 \<longrightarrow> fst (validate_token srv token w) = (True, json_login r))
       \<and> (status_code r = 401 \<longrightarrow> fst (validate_token srv token w) = (False, S ''Invalid token''))
       \<and> (status_code r \<noteq> 200 \<and> status_code r \<noteq> 401 \<longrightarrow>
            fst (validate_token srv token w) = (False, S ''Error: '' @ show_nat (status_code r)))
       \<and> snd (validate_token srv token w) = w\<lparr>log := log w @ [GetUser token]\<rparr>
       \<and> (tok \<noteq> [] \<and> user \<noteq> [] \<and> status_code (srv' [GetUser tok]) = 401 \<longrightarrow>
            main parse_day reformat (Some tok) (Some user) argv srv' stdin
              = Some \<lparr>outcome = Exit 1, requests = [GetUser tok],
                      stdout = banner @ [S ''Validating GitHub token...'' @ S '' '']
                                 @ token_error_message (S ''Invalid token''),
                      files = [], unread = stdin\<rparr>)"
  by (simp add: r_def validate_token_def send_def Let_def main_def falsy_def initial_io_def)

theorem validate_token_outcomes_witness:
  "S ''tok'' \<noteq> [] \<and> S ''octo'' \<noteq> [] \<and> status_code (rejecting_server [GetUser (S ''tok'')]) = 401
   \<and> fst (validate_token rejecting_server (S ''tok'') \<lparr>log = [], out = []\<rparr>) = (False, S ''Invalid token'')
   \<and> main fixed_width_day minute_of (Some (S ''tok'')) (Some (S ''octo''))
        [S ''fetch_commits.py'', S ''2024-01-01'', S ''2024-01-31''] rejecting_server []
      = Some \<lparr>outcome = Exit 1, requests = [GetUser (S ''tok'')],
              stdout = banner @ [S ''Validating GitHub token...'' @ S '' '']
                         @ token_error_message (S ''Invalid token''),
              files = [], unread = []\<rparr>"
proof -
  have h: "S ''tok'' \<noteq> [] \<and> S ''octo'' \<noteq> [] \<and> status_code (rejecting_server [GetUser (S ''tok'')]) = 401"
    by (simp add: S_def rejecting_server_def reply_def)
  show ?thesis
    using h validate_token_outcomes [of rejecting_server "S ''tok''" "\<lparr>log = [], out = []\<rparr>" "S ''tok''" "S ''octo''"
        rejecting_server fixed_width_day minute_of "[S ''fetch_commits.py'', S ''2024-01-01'', S ''2024-01-31'']" "[]"]
    by (simp add: rejecting_server_def reply_def)
qed

text \<open>
  C1 as stated fails: with token and username configured, a command line without
  arguments ends with the usage exit only after the identity request has been sent.
\<close>

theorem usage_exit_follows_identity_request:
  "length [S ''fetch_commits.py''] \<noteq> 3
   \<and> map_option outcome (main fixed_width_day minute_of (Some (S ''tok'')) (Some (S ''octo''))
        [S ''fetch_commits.py''] paged_server []) = Some (Exit 1)
   \<and> map_option requests (main fixed_width_day minute_of (Some (S ''tok'')) (Some (S ''octo''))
        [S ''fetch_commits.py''] paged_server []) = Some [GetUser (S ''tok'')]"
  by (simp add: main_def falsy_def S_def validate_token_def send_def initial_io_def paged_server_def reply_def say_def)

text \<open>
  C1, amended: when the command line does not have exactly two arguments, or one of the
  dates is rejected by the \<open>YYYY-MM-DD\<close> parse, the run ends with exit code 1, writes no
  file and sends no repository or commit request: it sends nothing when token or
  username is missing and otherwise only the identity request, which precedes the check
  of the arguments. When the token is accepted, the usage message (wrong count) or the
  date-format error (bad date) is printed.
\<close>

theorem bad_arguments_exit_before_fetching:
  assumes "length argv \<noteq> 3 \<or> \<not> parse_day (argv ! 1) \<or> \<not> parse_day (argv ! 2)"
  shows "\<exists>r. main parse_day reformat GITHUB_TOKEN USERNAME argv srv stdin = Some r
      \<and> outcome r = Exit 1 \<and> files r = [] \<and> unread r = stdin
      \<and> length (requests r) \<le> 1 \<and> (\<forall>q \<in> set (requests r). \<exists>t. q = GetUser t)
      \<and> (requests r = [] \<longleftrightarrow> falsy GITHUB_TOKEN \<or> falsy USERNAME)
      \<and> (\<not> falsy GITHUB_TOKEN \<and> \<not> falsy USERNAME
           \<and> status_code (srv [GetUser (the GITHUB_TOKEN)]) = 200 \<longrightarrow>
           (if length argv \<noteq> 3 then set usage_message \<subseteq> set (stdout r)
            else date_error_message \<in> set (stdout r)))"
proof (cases "falsy GITHUB_TOKEN \<or> falsy USERNAME")
  case True
  then show ?thesis by (auto simp add: main_def)
next
  case False
  show ?thesis
  proof (cases "status_code (srv [GetUser (the GITHUB_TOKEN)]) = 200")
    case ok: True
    show ?thesis
    proof (cases "length argv \<noteq> 3")
      case True
      with False ok show ?thesis
        by (auto simp add: main_def validate_token_def send_def initial_io_def say_def Let_def)
    next
      case len: False
      with assms have "\<not> (parse_day (argv ! 1) \<and> parse_day (argv ! 2))" by auto
      with False ok len show ?thesis
        by (auto simp add: main_def validate_token_def send_def initial_io_def say_def Let_def)
    qed
  next
    case bad: False
    with False show ?thesis
      by (auto simp add: main_def validate_token_def send_def initial_io_def say_def Let_def)
  qed
qed

theorem bad_arguments_exit_before_fetching_witness:
  "length [S ''fetch_commits.py''] \<noteq> 3
   \<and> (\<exists>r. main fixed_width_day minute_of (Some (S ''tok'')) (Some (S ''octo'')) [S ''fetch_commits.py'']
              paged_server [] = Some r
          \<and> outcome r = Exit 1 \<and> files r = [] \<and> length (requests r) \<le> 1
          \<and> set usage_message \<subseteq> set (stdout r))"
proof -
  have h: "length [S ''fetch_commits.py''] \<noteq> 3 \<or> \<not> fixed_width_day ([S ''fetch_commits.py''] ! 1)
             \<or> \<not> fixed_width_day ([S ''fetch_commits.py''] ! 2)"
    by simp
  have ok: "\<not> falsy (Some (S ''tok'')) \<and> \<not> falsy (Some (S ''octo''))
      \<and> status_code (paged_server [GetUser (the (Some (S ''tok'')))]) = 200"
    by (simp add: falsy_def S_def paged_server_def reply_def)
  from bad_arguments_exit_before_fetching [OF h, of minute_of "Some (S ''tok'')" "Some (S ''octo'')" paged_server "[]"]
  obtain r where r: "main fixed_width_day minute_of (Some (S ''tok'')) (Some (S ''octo'')) [S ''fetch_commits.py'']
              paged_server [] = Some r" "outcome r = Exit 1" "files r = []" "length (requests r) \<le> 1"
      "\<not> falsy (Some (S ''tok'')) \<and> \<not> falsy (Some (S ''octo''))
           \<and> status_code (paged_server [GetUser (the (Some (S ''tok'')))]) = 200 \<longrightarrow>
           (if length [S ''fetch_commits.py''] \<noteq> 3 then set usage_message \<subseteq> set (stdout r)
            else date_error_message \<in> set (stdout r))"
    by blast
  from r(5) ok have "set usage_message \<subseteq> set (stdout r)" by simp
  with r(1-4) show ?thesis by simp
qed

section \<open>The aggregated list\<close>

lemma fetch_all_commitsE:
  assumes "fetch_all_commits srv username token start_date end_date w = Some (Inr (commits, counts), w')"
  obtains repos w1 all_commits where
    "get_all_repositories srv token w = Some (repos, w1)"
    "fetch_repos srv username token start_date end_date 1 (length repos) repos [] []
       (say [println ([NL] @ S ''Fetching commits from '' @ start_date @ S '' to '' @ end_date @ S ''...''),
             println dash80] w1) = Some (Inr (all_commits, counts), w')"
    "commits = sort_reverse committer_date all_commits"
  using assms
  by (auto simp: fetch_all_commits_def split: option.splits sum.splits prod.splits)




lemma set_sort_reverse: "set (sort_reverse f xs) = set xs"
  by (simp add: sort_reverse_def)



lemma sorted_sort_reverse: "sorted_wrt (\<lambda>a b. f b \<le> f a) (sort_reverse f xs)"
proof -
  have "sorted (map f (sort_key f (rev xs)))" by (rule sorted_sort_key)
  then have "sorted_wrt (\<lambda>a b. f a \<le> f b) (sort_key f (rev xs))"
    by (simp add: sorted_map)
  then show ?thesis
    by (simp add: sort_reverse_def sorted_wrt_rev)
qed

lemma shaped_aligned:
  assumes "shaped p s" and "shaped p t" and "\<forall>c \<in> set p. \<not> is_digit c"
  shows "aligned s t"
  using assms
proof (induction p arbitrary: s t)
  case Nil
  then show ?case by (cases s; cases t) simp_all
next
  case (Cons c p)
  then show ?case by (cases s; cases t) (auto split: if_splits)
qed

lemma aligned_filter:
  assumes "aligned s t"
  shows "length (filter is_digit s) = length (filter is_digit t)
       \<and> (s < t \<longleftrightarrow> filter is_digit s < filter is_digit t)"
  using assms by (induction s t rule: aligned.induct) auto

lemma decimal_acc: "decimal acc ds = acc * 10 ^ length ds + decimal 0 ds"
proof (induction ds arbitrary: acc)
  case Nil
  then show ?case by simp
next
  case (Cons d ds)
  have "decimal acc (d # ds) = (10 * acc + (d - 48)) * 10 ^ length ds + decimal 0 ds"
    using Cons.IH [of "10 * acc + (d - 48)"] by simp
  also have "\<dots> = acc * 10 ^ length (d # ds) + ((d - 48) * 10 ^ length ds + decimal 0 ds)"
    by (simp add: algebra_simps)
  also have "(d - 48) * 10 ^ length ds + decimal 0 ds = decimal 0 (d # ds)"
    using Cons.IH [of "d - 48"] by simp
  finally show ?case .
qed

lemma decimal_snoc: "decimal acc (ds @ [d]) = 10 * decimal acc ds + (d - 48)"
  by (induction ds arbitrary: acc) simp_all

lemma decimal_bound: "list_all is_digit ds \<Longrightarrow> decimal 0 ds < 10 ^ length ds"
proof (induction ds rule: rev_induct)
  case Nil
  then show ?case by simp
next
  case (snoc d ds)
  from snoc have "decimal 0 ds < 10 ^ length ds" "d - 48 < 10"
    by (auto simp: is_digit_def)
  then have "10 * decimal 0 ds + (d - 48) < 10 * 10 ^ length ds" by linarith
  then show ?case by (simp add: decimal_snoc)
qed

lemma digits_less:
  assumes "length ds = length es" and "list_all is_digit ds" and "list_all is_digit es" and "ds < es"
  shows "decimal 0 ds < decimal 0 es"
  using assms
proof (induction ds es rule: list_induct2)
  case Nil
  then show ?case by simp
next
  case (Cons d ds e es)
  have dd: "decimal 0 (d # ds) = (d - 48) * 10 ^ length ds + decimal 0 ds"
    using decimal_acc [of "d - 48" ds] by simp
  have de: "decimal 0 (e # es) = (e - 48) * 10 ^ length ds + decimal 0 es"
    using decimal_acc [of "e - 48" es] Cons.hyps by simp
  from Cons.prems(3) consider "d < e" | "d = e" "ds < es" by auto
  then show ?case
  proof cases
    case 1
    with Cons.prems(1,2) have "d - 48 + 1 \<le> e - 48" by (auto simp: is_digit_def)
    then have "(d - 48 + 1) * 10 ^ length ds \<le> (e - 48) * 10 ^ length ds"
      by (rule mult_le_mono1)
    moreover have "decimal 0 ds < 10 ^ length ds"
      using Cons.prems(1) by (intro decimal_bound) simp
    ultimately show ?thesis unfolding dd de by (simp add: algebra_simps)
  next
    case 2
    with Cons have "decimal 0 ds < decimal 0 es" by simp
    with 2 show ?thesis unfolding dd de by simp
  qed
qed

lemma fixed_width_order:
  assumes "fixed_width_timestamp s" and "fixed_width_timestamp t"
  shows "s \<le> t \<longleftrightarrow> chronological s \<le> chronological t"
proof -
  have nd: "\<forall>c \<in> set (S ''dddd-dd-ddTdd:dd:ddZ''). \<not> is_digit c"
    by (simp add: S_def is_digit_def)
  have st: "aligned s t" and ts: "aligned t s"
    using assms nd by (auto simp: fixed_width_timestamp_def intro: shaped_aligned)
  have len: "length (filter is_digit s) = length (filter is_digit t)"
    using aligned_filter [OF st] by simp
  have dig: "list_all is_digit (filter is_digit s)" "list_all is_digit (filter is_digit t)"
    by (simp_all add: list_all_iff)
  have less: "chronological t < chronological s" if "t < s"
    using that aligned_filter [OF ts] digits_less [OF len [symmetric] dig(2) dig(1)]
    by (simp add: chronological_def)
  have less': "chronological s < chronological t" if "s < t"
    using that aligned_filter [OF st] digits_less [OF len dig(1) dig(2)]
    by (simp add: chronological_def)
  show ?thesis
  proof
    assume "s \<le> t"
    then have "s < t \<or> s = t" by auto
    then show "chronological s \<le> chronological t"
      using less' by auto
  next
    assume c: "chronological s \<le> chronological t"
    show "s \<le> t"
    proof (rule ccontr)
      assume "\<not> s \<le> t"
      then have "t < s" by simp
      from less [OF this] c show False by simp
    qed
  qed
qed

lemma two_repo_run:
  "\<exists>w'. fetch_all_commits two_repo_server (S ''octo'') (S ''tok'') (S ''2024-01-01'') (S ''2024-01-31'') w
     = Some (Inr ([attach other_repo newer_commit, attach demo_repo demo_commit],
                  [(S ''octo/app'', 1), (S ''octo/lib'', 1)]), w')"
proof -
  have dates: "committer_date (attach demo_repo demo_commit) < committer_date (attach other_repo newer_commit)"
    using demo_dates by (simp add: attach_def)
  have srt: "sort_reverse committer_date [attach demo_repo demo_commit, attach other_repo newer_commit]
      = [attach other_repo newer_commit, attach demo_repo demo_commit]"
    using dates by (simp add: sort_reverse_def)
  have srv: "two_repo_server (h @ [GetRepos t p]) = reply 200 [] [demo_repo, other_repo] []"
    "two_repo_server (h @ [GetCommits t ow rp au si un p])
       = (if rp = S ''app'' then reply 200 [] [] [demo_commit] else reply 200 [] [] [newer_commit])"
    for h t p ow rp au si un
    by (simp_all add: two_repo_server_def)
  have names: "full_name demo_repo = S ''octo/app''" "full_name other_repo = S ''octo/lib''"
    by (simp_all add: demo_repo_def other_repo_def)
  show ?thesis
    by (simp add: fetch_all_commits_def get_all_repositories_def get_commits_from_repo_def
        repos_loop.simps [of two_repo_server] commits_loop.simps [of two_repo_server]
        send_def say_def Let_def srv reply_def names split_demo_names commits_request_def app_not_lib srt
        del: sort_reverse_def)
qed

text \<open>
  C2: in the list returned by \<open>fetch_all_commits\<close>, each commit's committer timestamp
  is greater than or equal to that of the next one; and on strings of the fixed-width
  shape \<open>YYYY-MM-DDTHH:MM:SSZ\<close> the order of strings used by the sort is the
  chronological order.
\<close>

theorem aggregated_commits_newest_first:
  assumes "fetch_all_commits srv username token start_date end_date w = Some (Inr (commits, counts), w')"
  shows "(\<forall>i. Suc i < length commits \<longrightarrow>
            committer_date (commits ! Suc i) \<le> committer_date (commits ! i))
       \<and> (\<forall>s t. fixed_width_timestamp s \<and> fixed_width_timestamp t \<longrightarrow>
            (s \<le> t \<longleftrightarrow> chronological s \<le> chronological t))"
proof -
  from assms obtain all_commits where c: "commits = sort_reverse committer_date all_commits"
    by (rule fetch_all_commitsE)
  have "sorted_wrt (\<lambda>a b. committer_date b \<le> committer_date a) commits"
    unfolding c by (rule sorted_sort_reverse)
  then have "\<forall>i. Suc i < length commits \<longrightarrow>
            committer_date (commits ! Suc i) \<le> committer_date (commits ! i)"
    by (simp add: sorted_wrt_iff_nth_less)
  then show ?thesis
    using fixed_width_order by blast
qed

theorem aggregated_commits_newest_first_witness:
  "\<exists>w'. fetch_all_commits two_repo_server (S ''octo'') (S ''tok'') (S ''2024-01-01'') (S ''2024-01-31'')
            \<lparr>log = [], out = []\<rparr>
         = Some (Inr ([attach other_repo newer_commit, attach demo_repo demo_commit],
                      [(S ''octo/app'', 1), (S ''octo/lib'', 1)]), w')
      \<and> committer_date (attach demo_repo demo_commit) \<le> committer_date (attach other_repo newer_commit)
      \<and> (S ''2024-01-15T10:30:00Z'' \<le> S ''2024-01-20T08:00:00Z''
           \<longleftrightarrow> chronological (S ''2024-01-15T10:30:00Z'') \<le> chronological (S ''2024-01-20T08:00:00Z''))"
proof -
  from two_repo_run [of "\<lparr>log = [], out = []\<rparr>"] obtain w' where
    run: "fetch_all_commits two_repo_server (S ''octo'') (S ''tok'') (S ''2024-01-01'') (S ''2024-01-31'')
            \<lparr>log = [], out = []\<rparr>
         = Some (Inr ([attach other_repo newer_commit, attach demo_repo demo_commit],
                      [(S ''octo/app'', 1), (S ''octo/lib'', 1)]), w')"
    by blast
  have fw: "fixed_width_timestamp (S ''2024-01-15T10:30:00Z'')" "fixed_width_timestamp (S ''2024-01-20T08:00:00Z'')"
    by (simp_all add: fixed_width_timestamp_def S_def is_digit_def)
  from aggregated_commits_newest_first [OF run]
  have a: "\<forall>i. Suc i < length [attach other_repo newer_commit, attach demo_repo demo_commit] \<longrightarrow>
            committer_date ([attach other_repo newer_commit, attach demo_repo demo_commit] ! Suc i)
              \<le> committer_date ([attach other_repo newer_commit, attach demo_repo demo_commit] ! i)"
    and b: "\<forall>s t. fixed_width_timestamp s \<and> fixed_width_timestamp t \<longrightarrow>
            (s \<le> t \<longleftrightarrow> chronological s \<le> chronological t)"
    by blast+
  from a [rule_format, of 0] have "committer_date (attach demo_repo demo_commit) \<le> committer_date (attach other_repo newer_commit)"
    by simp
  moreover from b fw have "S ''2024-01-15T10:30:00Z'' \<le> S ''2024-01-20T08:00:00Z''
           \<longleftrightarrow> chronological (S ''2024-01-15T10:30:00Z'') \<le> chronological (S ''2024-01-20T08:00:00Z'')"
    by blast
  ultimately show ?thesis using run by blast
qed

section \<open>The per-repository counts\<close>









section \<open>Reporting\<close>


lemma md_commits_error:
  assumes "\<forall>c \<in> set cs. repository c \<noteq> None"
  shows "snd (md_commits reformat cur cs)
           = (if \<exists>c \<in> set cs. reformat (committer_date c) = None then Some ValueError else None)"
  using assms
  by (induction cs arbitrary: cur) (auto simp: Let_def case_prod_beta split: option.splits)


lemma snd_write_all:
  "snd (write_all (ws, e)) = (if list_all utf8_ok ws then e else Some UnicodeEncodeError)"
  by (simp add: write_all_def)



lemma main_after_fetch:
  assumes "token \<noteq> []" and "username \<noteq> []" and "status_code (srv [GetUser token]) = 200"
    and "length argv = 3" and "parse_day (argv ! 1)" and "parse_day (argv ! 2)"
    and "fetch_all_commits srv username token (argv ! 1) (argv ! 2)
           (say [greeting (json_login (srv [GetUser token]))] (snd (validate_token srv token initial_io)))
         = Some (Inr (commits, counts), w3)"
  shows "main parse_day reformat (Some token) (Some username) argv srv stdin =
    (case display_commits reformat commits counts of
       (shown, Some e) \<Rightarrow>
         Some \<lparr>outcome = Uncaught e, requests = log w3, stdout = out w3 @ shown, files = [], unread = stdin\<rparr>
     | (shown, None) \<Rightarrow>
         if commits \<noteq> []
         then (case export_menu reformat commits counts (argv ! 1) (argv ! 2) stdin of
                 (printed, written, Some e, rest) \<Rightarrow>
                   Some \<lparr>outcome = Uncaught e, requests = log w3,
                          stdout = out w3 @ shown @ export_title @ printed, files = written, unread = rest\<rparr>
               | (printed, written, None, rest) \<Rightarrow>
                   Some \<lparr>outcome = Exit 0, requests = log w3,
                          stdout = out w3 @ shown @ export_title @ printed @ [done_message],
                          files = written, unread = rest\<rparr>)
         else Some \<lparr>outcome = Exit 0, requests = log w3, stdout = out w3 @ shown @ [done_message],
                     files = [], unread = stdin\<rparr>)"
proof -
  have v: "validate_token srv token initial_io
             = ((True, json_login (srv [GetUser token])), initial_io\<lparr>log := [GetUser token]\<rparr>)"
    using assms(3) by (simp add: validate_token_def send_def initial_io_def)
  show ?thesis
    using assms(1,2,4,5,6) assms(7) [unfolded v]
    by (simp add: main_def falsy_def v Let_def del: One_nat_def)
qed


lemma quiet_run:
  "\<exists>w3. fetch_all_commits quiet_server (S ''octo'') (S ''tok'') sd ed w = Some (Inr ([], []), w3)"
proof -
  have srv: "quiet_server (h @ [GetRepos t p]) = reply 200 [] [demo_repo] []"
    "quiet_server (h @ [GetCommits t ow rp au si un p]) = reply 200 [] [] []"
    for h t p ow rp au si un
    by (simp_all add: quiet_server_def)
  have names: "full_name demo_repo = S ''octo/app''"
    by (simp add: demo_repo_def)
  show ?thesis
    by (simp add: fetch_all_commits_def get_all_repositories_def get_commits_from_repo_def
        repos_loop.simps [of quiet_server] commits_loop.simps [of quiet_server]
        send_def say_def Let_def srv reply_def names split_demo_names commits_request_def sort_reverse_def)
qed



lemma demo_arguments:
  "length [S ''fetch_commits.py'', S ''2024-01-01'', S ''2024-01-31''] = 3"
  "fixed_width_day ([S ''fetch_commits.py'', S ''2024-01-01'', S ''2024-01-31''] ! 1)"
  "fixed_width_day ([S ''fetch_commits.py'', S ''2024-01-01'', S ''2024-01-31''] ! 2)"
  "S ''tok'' \<noteq> []" "S ''octo'' \<noteq> []"
  by (simp_all add: fixed_width_day_def S_def is_digit_def)

text \<open>
  C9: when the aggregated commit list is empty, \<open>display_commits\<close> prints the
  no-commits notice in place of the summary, the export menu is not shown, no line of
  input is read, no file is written, and the run ends with exit code 0.
\<close>

theorem empty_list_skips_exports:
  assumes "token \<noteq> []" and "username \<noteq> []" and "status_code (srv [GetUser token]) = 200"
    and "length argv = 3" and "parse_day (argv ! 1)" and "parse_day (argv ! 2)"
    and "fetch_all_commits srv username token (argv ! 1) (argv ! 2)
           (say [greeting (json_login (srv [GetUser token]))] (snd (validate_token srv token initial_io)))
         = Some (Inr ([], counts), w3)"
  shows "main parse_day reformat (Some token) (Some username) argv srv stdin
           = Some \<lparr>outcome = Exit 0, requests = log w3,
                   stdout = out w3 @ [println ([NL] @ rule80), no_commits_notice, println rule80, done_message],
                   files = [], unread = stdin\<rparr>
       \<and> display_commits reformat [] counts
           = ([println ([NL] @ rule80), no_commits_notice, println rule80], None)"
  unfolding main_after_fetch [OF assms]
  by (simp add: display_commits_def)

theorem empty_list_skips_exports_witness:
  "\<exists>r. main fixed_width_day minute_of (Some (S ''tok'')) (Some (S ''octo''))
          [S ''fetch_commits.py'', S ''2024-01-01'', S ''2024-01-31''] quiet_server [S ''1''] = Some r
      \<and> outcome r = Exit 0 \<and> files r = [] \<and> unread r = [S ''1'']
      \<and> no_commits_notice \<in> set (stdout r)"
proof -
  let ?argv = "[S ''fetch_commits.py'', S ''2024-01-01'', S ''2024-01-31'']"
  have ok: "status_code (quiet_server [GetUser (S ''tok'')]) = 200"
    by (simp add: quiet_server_def reply_def)
  from quiet_run obtain w3 where
    run: "fetch_all_commits quiet_server (S ''octo'') (S ''tok'') (?argv ! 1) (?argv ! 2)
           (say [greeting (json_login (quiet_server [GetUser (S ''tok'')]))]
              (snd (validate_token quiet_server (S ''tok'') initial_io)))
         = Some (Inr ([], []), w3)"
    by blast
  from empty_list_skips_exports [OF demo_arguments(4,5) ok demo_arguments(1,2,3) run, of minute_of "[S ''1'']"]
  show ?thesis by simp
qed




section \<open>Markdown headings\<close>

lemma heading_write_simps:
  "heading_write (md_heading p n)"
  "\<not> heading_write (md_commit_line a b c d)"
  by (simp_all add: heading_write_def md_heading_def md_commit_line_def S_def NL_def)

lemma md_commits_heading_writes:
  assumes "md_commits reformat cur cs = (ws, None)"
  shows "length (filter heading_write ws) + length (previous cur)
           = length (remdups_adj (previous cur @ map repo_name_of cs))"
  using assms
proof (induction cs arbitrary: cur ws)
  case Nil
  then show ?case by (cases cur) (simp_all add: previous_def)
next
  case (Cons c cs)
  from Cons.prems obtain r f ws' where
    r: "repository c = Some r" and f: "reformat (committer_date c) = Some f"
    and rest: "md_commits reformat (Some (ref_full_name r)) cs = (ws', None)"
    and ws: "ws = (if Some (ref_full_name r) \<noteq> cur then [md_heading (ref_private r) (ref_full_name r)] else [])
                  @ [md_commit_line (take 7 (sha c)) f (first_line (message c)) (commit_html_url c)] @ ws'"
    by (auto simp: Let_def split: option.splits prod.splits)
  have n: "repo_name_of c = ref_full_name r" by (simp add: repo_name_of_def r)
  from Cons.IH [OF rest]
  have ih: "length (filter heading_write ws') + 1 = length (remdups_adj (ref_full_name r # map repo_name_of cs))"
    by (simp add: previous_def)
  show ?case
  proof (cases "Some (ref_full_name r) = cur")
    case True
    then have "previous cur = [ref_full_name r]" by (auto simp: previous_def)
    with True ih show ?thesis by (simp add: ws n heading_write_simps)
  next
    case False
    then show ?thesis
      using ih by (cases cur) (simp_all add: ws n heading_write_simps previous_def)
  qed
qed

lemma preamble_no_heading_write:
  "filter heading_write (md_preamble commits counts sd ed) = []"
  by (auto simp: md_preamble_def heading_write_def filter_empty_conv S_def NL_def)

lemma split_on_pieces: "p \<in> set (split_on c s) \<Longrightarrow> c \<notin> set p"
  by (induction s arbitrary: p) (auto split: if_splits list.splits)

lemma split_on_not_Nil: "split_on c s \<noteq> []"
  by (induction s) (auto split: list.splits)

lemma single_line_first_line: "single_line (first_line m)"
  unfolding single_line_def first_line_def
  by (rule split_on_pieces [of _ NL m]) (simp add: split_on_not_Nil)

lemma show_nat_digits: "c \<in> set (show_nat n) \<Longrightarrow> is_digit c"
  by (induction n arbitrary: c rule: show_nat.induct)
     (subst (asm) show_nat.simps, auto simp: is_digit_def split: if_splits)

lemma single_line_show_nat: "single_line (show_nat n)"
  using show_nat_digits [of NL n] by (auto simp: single_line_def is_digit_def NL_def)

lemma split_on_line: "c \<notin> set l \<Longrightarrow> split_on c (l @ c # rest) = l # split_on c rest"
  by (induction l) auto

lemma heading_lines_Nil: "heading_lines [] = 0"
  by (simp add: heading_lines_def heading_line_def S_def)

lemma heading_lines_line:
  "single_line l \<Longrightarrow> heading_lines ((l @ [NL]) @ rest) = (if heading_line l then 1 else 0) + heading_lines rest"
  by (simp add: heading_lines_def single_line_def split_on_line)

lemma heading_lines_unlines:
  "list_all single_line ls \<Longrightarrow>
     heading_lines (unlines ls @ rest) = length (filter heading_line ls) + heading_lines rest"
proof (induction ls)
  case Nil
  then show ?case by (simp add: unlines_def)
next
  case (Cons l ls)
  have "unlines (l # ls) @ rest = (l @ [NL]) @ (unlines ls @ rest)"
    by (simp add: unlines_def)
  then have "heading_lines (unlines (l # ls) @ rest)
      = (if heading_line l then 1 else 0) + heading_lines (unlines ls @ rest)"
    using Cons.prems heading_lines_line [of l "unlines ls @ rest"] by simp
  with Cons show ?case by simp
qed

lemma heading_lines_writes:
  assumes "\<forall>w \<in> set ws. \<exists>ls. w = unlines ls \<and> list_all single_line ls
              \<and> length (filter heading_line ls) = (if heading_write w then 1 else 0)"
  shows "heading_lines (concat ws @ rest) = length (filter heading_write ws) + heading_lines rest"
  using assms
proof (induction ws)
  case Nil
  then show ?case by simp
next
  case (Cons w ws)
  then obtain ls where ls: "w = unlines ls" "list_all single_line ls"
    "length (filter heading_line ls) = (if heading_write w then 1 else 0)"
    by auto
  have "heading_lines (concat (w # ws) @ rest) = heading_lines (unlines ls @ (concat ws @ rest))"
    by (simp add: ls(1))
  also have "\<dots> = length (filter heading_line ls) + heading_lines (concat ws @ rest)"
    by (rule heading_lines_unlines [OF ls(2)])
  finally show ?case using Cons ls(3) by simp
qed

lemma single_line_simps:
  "single_line []"
  "single_line (a @ b) \<longleftrightarrow> single_line a \<and> single_line b"
  "single_line (x # a) \<longleftrightarrow> x \<noteq> NL \<and> single_line a"
  by (auto simp: single_line_def)

lemma single_line_S: "NL \<notin> of_char ` set cs \<Longrightarrow> single_line (S cs)"
  by (simp add: single_line_def S_def)

lemma heading_ok:
  assumes "single_line n"
  shows "\<exists>ls. md_heading p n = unlines ls \<and> list_all single_line ls
            \<and> length (filter heading_line ls) = (if heading_write (md_heading p n) then 1 else 0)"
proof (intro exI conjI)
  let ?ls = "[[], S ''### '' @ md_label p @ S '' '' @ n, []]"
  show "md_heading p n = unlines ?ls"
    by (simp add: md_heading_def unlines_def)
  show "list_all single_line ?ls"
    using assms by (simp add: single_line_simps single_line_S md_label_def lock_emoji_def globe_emoji_def NL_def)
  show "length (filter heading_line ?ls) = (if heading_write (md_heading p n) then 1 else 0)"
    by (simp add: heading_write_simps heading_line_def S_def)
qed

lemma commit_line_ok:
  assumes "single_line a" "single_line b" "single_line c" "single_line d"
  shows "\<exists>ls. md_commit_line a b c d = unlines ls \<and> list_all single_line ls
            \<and> length (filter heading_line ls) = (if heading_write (md_commit_line a b c d) then 1 else 0)"
proof (intro exI conjI)
  let ?ls = "[S ''- **'' @ a @ S ''** ('' @ b @ S ''): '' @ c @ S '' ['' @ arrow @ S '' View]('' @ d @ S '')'']"
  show "md_commit_line a b c d = unlines ?ls"
    by (simp add: md_commit_line_def unlines_def)
  show "list_all single_line ?ls"
    using assms by (simp add: single_line_simps single_line_S arrow_def NL_def)
  show "length (filter heading_line ?ls) = (if heading_write (md_commit_line a b c d) then 1 else 0)"
    by (simp add: heading_write_simps heading_line_def S_def)
qed

lemma md_commits_ok:
  assumes "md_commits reformat cur cs = (ws, e)" and "list_all (plain_commit reformat) cs"
  shows "\<forall>w \<in> set ws. \<exists>ls. w = unlines ls \<and> list_all single_line ls
              \<and> length (filter heading_line ls) = (if heading_write w then 1 else 0)"
  using assms
proof (induction cs arbitrary: cur ws e)
  case Nil
  then show ?case by simp
next
  case (Cons c cs)
  show ?case
  proof (cases "repository c")
    case None
    with Cons.prems show ?thesis by simp
  next
    case (Some r)
    have n: "single_line (ref_full_name r)"
      using Cons.prems(2) Some by (simp add: plain_commit_def repo_name_of_def)
    note h = heading_ok [OF n, of "ref_private r"]
    show ?thesis
    proof (cases "reformat (committer_date c)")
      case None
      with Cons.prems(1) Some h show ?thesis by (auto simp: Let_def split: if_splits)
    next
      case f: (Some f)
      obtain ws' e' where rest: "md_commits reformat (Some (ref_full_name r)) cs = (ws', e')"
        by (cases "md_commits reformat (Some (ref_full_name r)) cs") auto
      have l: "\<exists>ls. md_commit_line (take 7 (sha c)) f (first_line (message c)) (commit_html_url c) = unlines ls
            \<and> list_all single_line ls
            \<and> length (filter heading_line ls)
                = (if heading_write (md_commit_line (take 7 (sha c)) f (first_line (message c)) (commit_html_url c))
                   then 1 else 0)"
        using Cons.prems(2) f by (intro commit_line_ok) (simp_all add: plain_commit_def single_line_first_line)
      have ih: "\<forall>w \<in> set ws'. \<exists>ls. w = unlines ls \<and> list_all single_line ls
              \<and> length (filter heading_line ls) = (if heading_write w then 1 else 0)"
        using Cons.IH [OF rest] Cons.prems(2) by simp
      have "set ws \<subseteq> {md_heading (ref_private r) (ref_full_name r),
                       md_commit_line (take 7 (sha c)) f (first_line (message c)) (commit_html_url c)} \<union> set ws'"
        using Cons.prems(1) Some f rest by (auto simp: Let_def split: if_splits)
      with h l ih show ?thesis by blast
    qed
  qed
qed

lemma preamble_ok:
  assumes "single_line sd" "single_line ed" "list_all (single_line \<circ> fst) counts"
  shows "\<forall>w \<in> set (md_preamble commits counts sd ed). \<exists>ls. w = unlines ls \<and> list_all single_line ls
              \<and> length (filter heading_line ls) = (if heading_write w then 1 else 0)"
proof -
  have nh: "\<not> heading_write w" if "w \<in> set (md_preamble commits counts sd ed)" for w
    using preamble_no_heading_write [of commits counts sd ed] that by (auto simp: filter_empty_conv)
  have two: "\<exists>ls. l @ [NL, NL] = unlines ls \<and> list_all single_line ls \<and> length (filter heading_line ls) = 0"
    if "single_line l" "\<not> heading_line l" for l
    using that by (intro exI [of _ "[l, []]"]) (simp add: unlines_def single_line_simps heading_line_def S_def)
  have one: "\<exists>ls. l @ [NL] = unlines ls \<and> list_all single_line ls \<and> length (filter heading_line ls) = 0"
    if "single_line l" "\<not> heading_line l" for l
    using that by (intro exI [of _ "[l]"]) (simp add: unlines_def)
  have rule4: "\<exists>ls. [NL] @ S ''---'' @ [NL, NL] @ S ''## Detailed Commits'' @ [NL, NL] = unlines ls
      \<and> list_all single_line ls \<and> length (filter heading_line ls) = 0"
    by (intro exI [of _ "[[], S ''---'', [], S ''## Detailed Commits'', []]"])
       (simp add: unlines_def single_line_simps single_line_S heading_line_def S_def NL_def)
  have names: "single_line rp" if "(rp, k) \<in> set (breakdown counts)" for rp k
    using that assms(3) by (auto simp: breakdown_def set_sort_reverse list_all_iff)
  have ok: "\<exists>ls. w = unlines ls \<and> list_all single_line ls \<and> length (filter heading_line ls) = 0"
    if "w \<in> set (md_preamble commits counts sd ed)" for w
  proof -
    from that consider
        "w = S ''# GitHub Commits Report'' @ [NL, NL]"
      | "w = (S ''**Period:** '' @ sd @ S '' to '' @ ed) @ [NL, NL]"
      | "w = (S ''**Total Commits:** '' @ show_nat (length commits)) @ [NL, NL]"
      | "w = (S ''**Repositories:** '' @ show_nat (length counts)) @ [NL, NL]"
      | "w = S ''## Summary by Repository'' @ [NL, NL]"
      | rp k where "(rp, k) \<in> set (breakdown counts)"
          "w = (S ''- **'' @ rp @ S ''**: '' @ show_nat k @ S '' commits'') @ [NL]"
      | "w = [NL] @ S ''---'' @ [NL, NL] @ S ''## Detailed Commits'' @ [NL, NL]"
      by (auto simp: md_preamble_def)
    then show ?thesis
    proof cases
      case 1
      show ?thesis unfolding 1
        by (rule two) (simp_all add: single_line_simps NL_def heading_line_def S_def)
    next
      case 2
      show ?thesis unfolding 2
        by (rule two) (use assms in \<open>simp_all add: single_line_simps single_line_S NL_def heading_line_def S_def\<close>)
    next
      case 3
      show ?thesis unfolding 3
        by (rule two) (simp_all add: single_line_simps single_line_S single_line_show_nat NL_def heading_line_def S_def)
    next
      case 4
      show ?thesis unfolding 4
        by (rule two) (simp_all add: single_line_simps single_line_S single_line_show_nat NL_def heading_line_def S_def)
    next
      case 5
      show ?thesis unfolding 5
        by (rule two) (simp_all add: single_line_simps NL_def heading_line_def S_def)
    next
      case 6
      show ?thesis unfolding 6(2)
        by (rule one) (use names [OF 6(1)] in
            \<open>simp_all add: single_line_simps single_line_S single_line_show_nat NL_def heading_line_def S_def\<close>)
    next
      case 7
      show ?thesis unfolding 7 by (rule rule4)
    qed
  qed
  show ?thesis using ok nh by auto
qed

lemma utf8_ok_simps:
  "utf8_ok []"
  "utf8_ok (a @ b) \<longleftrightarrow> utf8_ok a \<and> utf8_ok b"
  "utf8_ok (x # a) \<longleftrightarrow> (x < 55296 \<or> 57343 < x) \<and> utf8_ok a"
  by (auto simp: utf8_ok_def)

lemma utf8_ok_S: "utf8_ok (S cs)"
proof -
  have "of_char c < (55296 :: nat)" for c :: char
    using nat_of_char_less_256 [of c] by linarith
  then show ?thesis by (simp add: utf8_ok_def S_def list_all_iff)
qed

lemma utf8_ok_show_nat: "utf8_ok (show_nat n)"
  using show_nat_digits [of _ n] by (fastforce simp: utf8_ok_def list_all_iff is_digit_def)

lemma utf8_ok_subset: "set a \<subseteq> set b \<Longrightarrow> utf8_ok b \<Longrightarrow> utf8_ok a"
  by (auto simp: utf8_ok_def list_all_iff)

lemma first_line_subset: "set (first_line m) \<subseteq> set m"
proof -
  have "\<forall>p \<in> set (split_on c s). set p \<subseteq> set s" for c s
    by (induction s) (auto split: list.splits)
  moreover have "first_line m \<in> set (split_on NL m)"
    by (simp add: first_line_def split_on_not_Nil)
  ultimately show ?thesis by blast
qed

lemma md_commits_utf8:
  assumes "md_commits reformat cur cs = (ws, e)" and "list_all (encodable_commit reformat) cs"
  shows "list_all utf8_ok ws"
  using assms
proof (induction cs arbitrary: cur ws e)
  case Nil
  then show ?case by simp
next
  case (Cons c cs)
  show ?case
  proof (cases "repository c")
    case None
    with Cons.prems show ?thesis by simp
  next
    case (Some r)
    have n: "utf8_ok (ref_full_name r)"
      using Cons.prems(2) Some by (simp add: encodable_commit_def repo_name_of_def)
    have h: "utf8_ok (md_heading (ref_private r) (ref_full_name r))"
      using n by (simp add: md_heading_def md_label_def utf8_ok_simps utf8_ok_S lock_emoji_def globe_emoji_def NL_def)
    show ?thesis
    proof (cases "reformat (committer_date c)")
      case None
      with Cons.prems(1) Some h show ?thesis by (auto simp: Let_def split: if_splits)
    next
      case f: (Some f)
      obtain ws' e' where rest: "md_commits reformat (Some (ref_full_name r)) cs = (ws', e')"
        by (cases "md_commits reformat (Some (ref_full_name r)) cs") auto
      have "utf8_ok (first_line (message c))"
        using Cons.prems(2) by (auto simp: encodable_commit_def intro: utf8_ok_subset [OF first_line_subset])
      then have l: "utf8_ok (md_commit_line (take 7 (sha c)) f (first_line (message c)) (commit_html_url c))"
        using Cons.prems(2) f
        by (simp add: md_commit_line_def encodable_commit_def utf8_ok_simps utf8_ok_S arrow_def NL_def)
      have ih: "list_all utf8_ok ws'"
        using Cons.IH [OF rest] Cons.prems(2) by simp
      have "set ws \<subseteq> {md_heading (ref_private r) (ref_full_name r),
                       md_commit_line (take 7 (sha c)) f (first_line (message c)) (commit_html_url c)} \<union> set ws'"
        using Cons.prems(1) Some f rest by (auto simp: Let_def split: if_splits)
      with h l ih show ?thesis by (auto simp: list_all_iff)
    qed
  qed
qed

lemma preamble_utf8:
  assumes "utf8_ok sd" "utf8_ok ed" "list_all (utf8_ok \<circ> fst) counts"
  shows "list_all utf8_ok (md_preamble commits counts sd ed)"
proof -
  have "utf8_ok rp" if "(rp, k) \<in> set (breakdown counts)" for rp k
    using that assms(3) by (auto simp: breakdown_def set_sort_reverse list_all_iff)
  then show ?thesis
    using assms(1,2)
    by (auto simp: md_preamble_def list_all_iff utf8_ok_simps utf8_ok_S utf8_ok_show_nat NL_def)
qed

lemma markdown_writes_completes:
  assumes "\<forall>c \<in> set cs. repository c \<noteq> None" and "\<forall>c \<in> set cs. reformat (committer_date c) \<noteq> None"
    and "utf8_ok sd" "utf8_ok ed" "list_all (utf8_ok \<circ> fst) counts" "list_all (encodable_commit reformat) cs"
  shows "snd (markdown_writes reformat cs counts sd ed) = None"
proof -
  obtain ws e where m: "md_commits reformat None cs = (ws, e)"
    by (cases "md_commits reformat None cs") auto
  with md_commits_error [OF assms(1), of reformat None] assms(2) have e: "e = None" by simp
  have "list_all utf8_ok (md_preamble cs counts sd ed @ ws)"
    using preamble_utf8 [OF assms(3,4,5), of cs] md_commits_utf8 [OF m assms(6)] by simp
  then show ?thesis
    by (simp add: markdown_writes_def m snd_write_all e)
qed

text \<open>
  C6: when the Markdown export of a commit list completes, the number of repository
  headings it writes equals the number of maximal runs of consecutive commits of the same
  repository (\<open>remdups_adj\<close> keeps one name per run), not the number of distinct
  repositories; and when the interpolated fields hold no newline, this is also the number
  of lines of the file that begin with \<open>###\<close>.
\<close>

theorem one_heading_per_run:
  assumes "markdown_writes reformat commits counts start_date end_date = (ws, None)"
  shows "length (filter heading_write ws) = length (remdups_adj (map repo_name_of commits))
       \<and> fst (export_to_markdown reformat commits counts start_date end_date filename) = concat ws
       \<and> (single_line start_date \<and> single_line end_date \<and> list_all (single_line \<circ> fst) counts
            \<and> list_all (plain_commit reformat) commits \<longrightarrow>
          heading_lines (concat ws) = length (remdups_adj (map repo_name_of commits)))"
proof -
  from assms obtain ws' where
    m: "md_commits reformat None commits = (ws', None)"
    and ws: "ws = md_preamble commits counts start_date end_date @ ws'"
    by (auto simp: markdown_writes_def write_all_def split: prod.splits if_splits)
  from md_commits_heading_writes [OF m]
  have runs: "length (filter heading_write ws') = length (remdups_adj (map repo_name_of commits))"
    by (simp add: previous_def)
  have A: "length (filter heading_write ws) = length (remdups_adj (map repo_name_of commits))"
    by (simp add: ws preamble_no_heading_write runs)
  have B: "fst (export_to_markdown reformat commits counts start_date end_date filename) = concat ws"
    by (simp add: export_to_markdown_def assms)
  have C: "heading_lines (concat ws) = length (remdups_adj (map repo_name_of commits))"
    if p: "single_line start_date" "single_line end_date" "list_all (single_line \<circ> fst) counts"
      "list_all (plain_commit reformat) commits"
  proof -
    have "\<forall>w \<in> set ws. \<exists>ls. w = unlines ls \<and> list_all single_line ls
              \<and> length (filter heading_line ls) = (if heading_write w then 1 else 0)"
      unfolding ws set_append using preamble_ok [OF p(1,2,3), of commits] md_commits_ok [OF m p(4)]
      by blast
    from heading_lines_writes [OF this, of "[]"] show ?thesis
      by (simp add: heading_lines_Nil A)
  qed
  show ?thesis using A B C by blast
qed

lemma interleaved_facts:
  "map repo_name_of interleaved = [S ''octo/app'', S ''octo/lib'', S ''octo/app'']"
  "\<forall>c \<in> set interleaved. repository c \<noteq> None"
  "\<forall>c \<in> set interleaved. minute_of (committer_date c) \<noteq> None"
  "list_all (plain_commit minute_of) interleaved"
  "list_all (encodable_commit minute_of) interleaved"
  by (simp_all add: interleaved_def encodable_commit_def utf8_ok_def repo_name_of_def attach_def demo_repo_def other_repo_def
      latest_commit_def newer_commit_def demo_commit_def plain_commit_def minute_of_def
      fixed_width_timestamp_def single_line_def S_def NL_def is_digit_def)

theorem one_heading_per_run_witness:
  "markdown_writes minute_of interleaved [(S ''octo/app'', 2), (S ''octo/lib'', 1)] (S ''2024-01-01'') (S ''2024-01-31'')
     = (fst (markdown_writes minute_of interleaved [(S ''octo/app'', 2), (S ''octo/lib'', 1)]
               (S ''2024-01-01'') (S ''2024-01-31'')), None)
   \<and> heading_lines (fst (export_to_markdown minute_of interleaved [(S ''octo/app'', 2), (S ''octo/lib'', 1)]
                            (S ''2024-01-01'') (S ''2024-01-31'') (S ''commits.md''))) = 3
   \<and> length (remdups (map repo_name_of interleaved)) = 2"
proof -
  let ?counts = "[(S ''octo/app'', 2 :: nat), (S ''octo/lib'', 1)]"
  let ?m = "markdown_writes minute_of interleaved ?counts (S ''2024-01-01'') (S ''2024-01-31'')"
  have enc: "utf8_ok (S ''2024-01-01'')" "utf8_ok (S ''2024-01-31'')" "list_all (utf8_ok \<circ> fst) ?counts"
    by (simp_all add: utf8_ok_S)
  have "snd ?m = None"
    by (rule markdown_writes_completes [OF interleaved_facts(2,3) enc interleaved_facts(5)])
  then have h: "?m = (fst ?m, None)" by (simp add: prod_eq_iff)
  have plain: "single_line (S ''2024-01-01'') \<and> single_line (S ''2024-01-31'')
      \<and> list_all (single_line \<circ> fst) ?counts \<and> list_all (plain_commit minute_of) interleaved"
    using interleaved_facts(4) by (simp add: single_line_def S_def NL_def)
  have runs: "length (remdups_adj (map repo_name_of interleaved)) = 3"
    by (simp add: interleaved_facts(1) app_not_lib)
  have distinct: "length (remdups (map repo_name_of interleaved)) = 2"
    by (simp add: interleaved_facts(1) app_not_lib)
  from one_heading_per_run [OF h, of "S ''commits.md''"] plain runs
  have "heading_lines (fst (export_to_markdown minute_of interleaved ?counts
                            (S ''2024-01-01'') (S ''2024-01-31'') (S ''commits.md''))) = 3"
    by simp
  with h distinct show ?thesis by blast
qed

section \<open>CSV round trip\<close>

lemma step_plain:
  "\<not> csv_special c \<Longrightarrow> st \<noteq> InQuotedField \<Longrightarrow> length fld < field_size_limit \<Longrightarrow>
     csv_reader st fld row (c # cs) = csv_reader InField (fld @ [c]) row cs"
  by (simp add: csv_special_def)

lemma read_plain:
  "\<not> list_ex csv_special f \<Longrightarrow> st \<noteq> InQuotedField \<Longrightarrow> length acc + length f \<le> field_size_limit \<Longrightarrow>
     csv_reader st acc row (f @ rest)
       = (if f = [] then csv_reader st acc row rest else csv_reader InField (acc @ f) row rest)"
proof (induction f arbitrary: st acc)
  case Nil
  then show ?case by simp
next
  case (Cons c f)
  then have c: "\<not> csv_special c" and f: "\<not> list_ex csv_special f" by simp_all
  have l: "length acc < field_size_limit" "length (acc @ [c]) + length f \<le> field_size_limit"
    using Cons.prems(3) by simp_all
  have "csv_reader st acc row ((c # f) @ rest) = csv_reader InField (acc @ [c]) row (f @ rest)"
    using step_plain [OF c Cons.prems(2) l(1)] by simp
  also have "\<dots> = csv_reader InField (acc @ c # f) row rest"
    using Cons.IH [OF f _ l(2), of InField] by (cases "f = []") simp_all
  finally show ?case by simp
qed

lemma read_quoted:
  "length acc + length f \<le> field_size_limit \<Longrightarrow>
   csv_reader InQuotedField acc row (concat (map (\<lambda>c. if c = QUOTE then [QUOTE, QUOTE] else [c]) f) @ QUOTE # rest)
     = csv_reader QuoteInQuotedField (acc @ f) row rest"
proof (induction f arbitrary: acc)
  case Nil
  then show ?case by simp
next
  case (Cons c f)
  have l: "\<not> field_size_limit \<le> length acc" "length (acc @ [c]) + length f \<le> field_size_limit"
    using Cons.prems by simp_all
  show ?case
  proof (cases "c = QUOTE")
    case True
    have "csv_reader InQuotedField acc row (QUOTE # QUOTE # concat (map (\<lambda>c. if c = QUOTE then [QUOTE, QUOTE] else [c]) f) @ QUOTE # rest)
        = csv_reader InQuotedField (acc @ [QUOTE]) row (concat (map (\<lambda>c. if c = QUOTE then [QUOTE, QUOTE] else [c]) f) @ QUOTE # rest)"
      using l(1) by (simp add: QUOTE_def CR_def NL_def)
    with True Cons.IH [OF l(2)] show ?thesis by simp
  next
    case False
    with Cons.IH [OF l(2)] l(1) show ?thesis by simp
  qed
qed

lemma field_then_comma:
  assumes "at_field_start st" and "length f \<le> field_size_limit"
  shows "csv_reader st [] row (csv_field f @ COMMA # rest) = csv_reader StartField [] (row @ [f]) rest"
proof (cases "list_ex csv_special f")
  case True
  have "csv_reader st [] row (QUOTE # concat (map (\<lambda>c. if c = QUOTE then [QUOTE, QUOTE] else [c]) f) @ QUOTE # COMMA # rest)
      = csv_reader InQuotedField [] row (concat (map (\<lambda>c. if c = QUOTE then [QUOTE, QUOTE] else [c]) f) @ QUOTE # COMMA # rest)"
    using assms(1) by (auto simp: at_field_start_def QUOTE_def CR_def NL_def COMMA_def)
  also have "\<dots> = csv_reader QuoteInQuotedField f row (COMMA # rest)"
    using read_quoted [of "[]" f row "COMMA # rest"] assms(2) by simp
  also have "\<dots> = csv_reader StartField [] (row @ [f]) rest"
    by (simp add: QUOTE_def CR_def NL_def COMMA_def)
  finally show ?thesis using True by (simp add: csv_field_def)
next
  case False
  have st: "st \<noteq> InQuotedField" using assms by (auto simp: at_field_start_def)
  have "csv_reader st [] row (f @ COMMA # rest)
      = (if f = [] then csv_reader st [] row (COMMA # rest) else csv_reader InField f row (COMMA # rest))"
    using read_plain [OF False st, of "[]" row "COMMA # rest"] assms(2) by simp
  also have "\<dots> = csv_reader StartField [] (row @ [f]) rest"
    using assms(1) by (auto simp: at_field_start_def QUOTE_def CR_def NL_def COMMA_def)
  finally show ?thesis using False by (simp add: csv_field_def)
qed

lemma field_then_eol:
  assumes "at_field_start st" and "st = StartField \<or> f \<noteq> []" and "length f \<le> field_size_limit"
  shows "csv_reader st [] row (csv_field f @ CR # NL # rest)
           = apfst ((#) (row @ [f])) (csv_reader StartRecord [] [] rest)"
proof (cases "list_ex csv_special f")
  case True
  have "csv_reader st [] row (QUOTE # concat (map (\<lambda>c. if c = QUOTE then [QUOTE, QUOTE] else [c]) f) @ QUOTE # CR # NL # rest)
      = csv_reader InQuotedField [] row (concat (map (\<lambda>c. if c = QUOTE then [QUOTE, QUOTE] else [c]) f) @ QUOTE # CR # NL # rest)"
    using assms(1) by (auto simp: at_field_start_def QUOTE_def CR_def NL_def COMMA_def)
  also have "\<dots> = csv_reader QuoteInQuotedField f row (CR # NL # rest)"
    using read_quoted [of "[]" f row "CR # NL # rest"] assms(3) by simp
  also have "\<dots> = apfst ((#) (row @ [f])) (csv_reader StartRecord [] [] rest)"
    by (cases "csv_reader StartRecord [] [] rest") (simp add: QUOTE_def CR_def NL_def COMMA_def)
  finally show ?thesis using True by (simp add: csv_field_def)
next
  case False
  have st: "st \<noteq> InQuotedField" using assms by (auto simp: at_field_start_def)
  have "csv_reader st [] row (f @ CR # NL # rest)
      = (if f = [] then csv_reader st [] row (CR # NL # rest) else csv_reader InField f row (CR # NL # rest))"
    using read_plain [OF False st, of "[]" row "CR # NL # rest"] assms(3) by simp
  also have "\<dots> = apfst ((#) (row @ [f])) (csv_reader StartRecord [] [] rest)"
    using assms(1,2)
    by (cases "csv_reader StartRecord [] [] rest")
       (auto simp: at_field_start_def QUOTE_def CR_def NL_def COMMA_def)
  finally show ?thesis using False by (simp add: csv_field_def)
qed

lemma read_row:
  assumes "cells \<noteq> []" and "at_field_start st" and "st = StartField \<or> cells \<noteq> [[]]"
    and "list_all (\<lambda>f. length f \<le> field_size_limit) cells"
  shows "csv_reader st [] row (join_comma (map csv_field cells) @ CR # NL # rest)
           = apfst ((#) (row @ cells)) (csv_reader StartRecord [] [] rest)"
  using assms
proof (induction cells arbitrary: st row)
  case Nil
  then show ?case by simp
next
  case (Cons f fs)
  have lf: "length f \<le> field_size_limit" and lfs: "list_all (\<lambda>f. length f \<le> field_size_limit) fs"
    using Cons.prems(4) by simp_all
  show ?case
  proof (cases fs)
    case Nil
    with Cons.prems have "st = StartField \<or> f \<noteq> []" by auto
    from field_then_eol [OF Cons.prems(2) this lf, of row rest] Nil show ?thesis by simp
  next
    case (Cons g gs)
    have s: "at_field_start StartField" by (simp add: at_field_start_def)
    have "csv_reader st [] row (join_comma (map csv_field (f # fs)) @ CR # NL # rest)
        = csv_reader StartField [] (row @ [f]) (join_comma (map csv_field fs) @ CR # NL # rest)"
      using field_then_comma [OF Cons.prems(2) lf, of row] Cons by simp
    also have "\<dots> = apfst ((#) ((row @ [f]) @ fs)) (csv_reader StartRecord [] [] rest)"
      by (rule Cons.IH [OF _ s _ lfs]) (simp_all add: Cons)
    finally show ?thesis by simp
  qed
qed

lemma read_writerow:
  assumes "list_all (\<lambda>f. length f \<le> field_size_limit) cells"
  shows "csv_reader StartRecord [] [] (csv_writerow cells @ rest)
           = apfst ((#) cells) (csv_reader StartRecord [] [] rest)"
proof -
  consider "cells = []" | "cells = [[]]" | "cells \<noteq> []" "cells \<noteq> [[]]" by blast
  then show ?thesis
  proof cases
    case 1
    then show ?thesis
      by (cases "csv_reader StartRecord [] [] rest") (simp add: csv_writerow_def QUOTE_def CR_def NL_def COMMA_def)
  next
    case 2
    then show ?thesis
      by (cases "csv_reader StartRecord [] [] rest") (simp add: csv_writerow_def QUOTE_def CR_def NL_def COMMA_def)
  next
    case 3
    have s: "at_field_start StartRecord" by (simp add: at_field_start_def)
    from read_row [OF 3(1) s _ assms, of "[]" rest] 3(2) show ?thesis
      by (simp add: csv_writerow_def)
  qed
qed

lemma read_rows:
  "list_all (list_all (\<lambda>f. length f \<le> field_size_limit)) rows \<Longrightarrow>
     csv_reader StartRecord [] [] (concat (map csv_writerow rows)) = (rows, None)"
  by (induction rows) (simp_all add: read_writerow)

lemma csv_rows_written:
  assumes "\<forall>c \<in> set commits. repository c \<noteq> None"
  shows "csv_rows commits = (map (csv_writerow \<circ> csv_cells) commits, None)"
  using assms
  by (induction commits) (auto simp: csv_cells_def csv_record_def)

lemma single_line_replace: "NL \<notin> set (replace_newlines m)"
  by (induction m) (auto simp: replace_newlines_def S_def NL_def)

lemma utf8_ok_field: "utf8_ok f \<Longrightarrow> utf8_ok (csv_field f)"
proof -
  assume f: "utf8_ok f"
  then have "utf8_ok (concat (map (\<lambda>c. if c = QUOTE then [QUOTE, QUOTE] else [c]) f))"
    by (induction f) (auto simp: utf8_ok_simps QUOTE_def)
  with f show ?thesis by (simp add: csv_field_def utf8_ok_simps QUOTE_def)
qed

lemma utf8_ok_writerow: "list_all utf8_ok cells \<Longrightarrow> utf8_ok (csv_writerow cells)"
proof -
  assume c: "list_all utf8_ok cells"
  then have "utf8_ok (join_comma (map csv_field cells))"
    by (induction cells rule: join_comma.induct) (simp_all add: utf8_ok_simps utf8_ok_field COMMA_def)
  then show ?thesis by (simp add: csv_writerow_def utf8_ok_simps QUOTE_def CR_def NL_def)
qed

lemma length_S: "length (S cs) = length cs"
  by (simp add: S_def)

lemma fieldnames_safe: "list_all csv_safe fieldnames"
  by (simp add: fieldnames_def csv_safe_def utf8_ok_S field_size_limit_def length_S)

lemma export_to_csv_safe:
  assumes "\<forall>c \<in> set commits. repository c \<noteq> None"
    and "\<forall>c \<in> set commits. list_all csv_safe (csv_cells c)"
  shows "export_to_csv commits filename
           = (concat (map csv_writerow (fieldnames # map csv_cells commits)),
              [println (check_mark @ S '' Commits exported to '' @ filename)], None)"
proof -
  have w: "csv_rows commits = (map (csv_writerow \<circ> csv_cells) commits, None)"
    by (rule csv_rows_written [OF assms(1)])
  have "list_all utf8_ok (csv_writerow fieldnames # map (csv_writerow \<circ> csv_cells) commits)"
    using fieldnames_safe assms(2)
    by (auto simp: list_all_iff csv_safe_def intro!: utf8_ok_writerow)
  then show ?thesis
    unfolding export_to_csv_def w by (simp add: write_all_def)
qed

text \<open>
  C7 as stated fails: a commit whose message holds a lone surrogate makes the write of its
  row raise UnicodeEncodeError; the file keeps the header only, and reading it back
  gives no data row for the commit.
\<close>

theorem surrogate_message_stops_csv_export:
  "repository (attach demo_repo surrogate_commit) \<noteq> None
   \<and> snd (snd (export_to_csv [attach demo_repo surrogate_commit] (S ''commits.csv''))) = Some UnicodeEncodeError
   \<and> csv_parse (fst (export_to_csv [attach demo_repo surrogate_commit] (S ''commits.csv'')))
       = ([fieldnames], None)"
proof -
  have r: "repository (attach demo_repo surrogate_commit) \<noteq> None"
    by (simp add: attach_def)
  have w: "csv_rows [attach demo_repo surrogate_commit]
             = ([csv_writerow (csv_cells (attach demo_repo surrogate_commit))], None)"
    using csv_rows_written [of "[attach demo_repo surrogate_commit]"] r by simp
  have head: "utf8_ok (csv_writerow fieldnames)"
    using fieldnames_safe by (auto simp: list_all_iff csv_safe_def intro!: utf8_ok_writerow)
  have cells: "csv_cells (attach demo_repo surrogate_commit)
      = [S ''2024-01-15T10:30:00Z'', S ''octo/app'', S ''Yes'', S ''0123456'', [55357],
         S ''https://github.com/octo/app/commit/0123456'']"
    by (simp add: csv_cells_def csv_record_def attach_def surrogate_commit_def demo_repo_def
        replace_newlines_def S_def NL_def)
  have bad: "\<not> utf8_ok (csv_writerow (csv_cells (attach demo_repo surrogate_commit)))"
    unfolding cells
    by (simp add: csv_writerow_def csv_field_def csv_special_def utf8_ok_simps
        COMMA_def QUOTE_def CR_def NL_def)
  have e: "export_to_csv [attach demo_repo surrogate_commit] (S ''commits.csv'')
      = (csv_writerow fieldnames, [], Some UnicodeEncodeError)"
    using head bad unfolding export_to_csv_def w by (simp add: write_all_def)
  have "csv_parse (csv_writerow fieldnames) = ([fieldnames], None)"
    using read_rows [of "[fieldnames]"] fieldnames_safe
    by (simp add: csv_parse_def csv_safe_def list_all_iff)
  with r e show ?thesis by simp
qed

text \<open>
  C7, amended: for a commit list in which every commit carries its repository and every
  exported cell holds no surrogate and at most 131072 characters (the reader's field
  limit), the export completes, and reading the file back gives the header row followed
  by exactly one row per commit, in order; the Private field of a row is \<open>Yes\<close> when
  the repository is private and \<open>No\<close> otherwise, and the Message field is the message
  with every newline replaced by \<open> | \<close>, so that it holds no newline.
\<close>

theorem csv_round_trip:
  assumes "\<forall>c \<in> set commits. repository c \<noteq> None"
    and "\<forall>c \<in> set commits. list_all csv_safe (csv_cells c)"
  shows "csv_parse (fst (export_to_csv commits filename)) = (fieldnames # map csv_cells commits, None)
       \<and> length (fst (csv_parse (fst (export_to_csv commits filename)))) = 1 + length commits
       \<and> snd (snd (export_to_csv commits filename)) = None
       \<and> (\<forall>c \<in> set commits. \<exists>r. repository c = Some r
             \<and> csv_cells c = [committer_date c, ref_full_name r,
                               (if ref_private r then S ''Yes'' else S ''No''),
                               take 7 (sha c), replace_newlines (message c), commit_html_url c]
             \<and> NL \<notin> set (replace_newlines (message c)))"
proof -
  note e = export_to_csv_safe [OF assms, of filename]
  have short: "list_all (list_all (\<lambda>f. length f \<le> field_size_limit)) (fieldnames # map csv_cells commits)"
    using fieldnames_safe assms(2) by (auto simp: list_all_iff csv_safe_def)
  have A: "csv_parse (fst (export_to_csv commits filename)) = (fieldnames # map csv_cells commits, None)"
    unfolding csv_parse_def e fst_conv by (rule read_rows [OF short])
  have B: "snd (snd (export_to_csv commits filename)) = None"
    by (simp add: e)
  have C: "\<exists>r. repository c = Some r
             \<and> csv_cells c = [committer_date c, ref_full_name r,
                               (if ref_private r then S ''Yes'' else S ''No''),
                               take 7 (sha c), replace_newlines (message c), commit_html_url c]
             \<and> NL \<notin> set (replace_newlines (message c))"
    if "c \<in> set commits" for c
  proof -
    from that assms obtain r where r: "repository c = Some r" by auto
    show ?thesis
      by (rule exI [of _ r]) (simp add: r csv_cells_def csv_record_def single_line_replace)
  qed
  show ?thesis using A B C by simp
qed

theorem csv_round_trip_witness:
  "csv_parse (fst (export_to_csv [attach demo_repo tricky_commit] (S ''commits.csv'')))
     = ([fieldnames,
         [S ''2024-01-15T10:30:00Z'', S ''octo/app'', S ''Yes'', S ''0123456'',
          S ''Say '' @ [QUOTE] @ S ''hi'' @ [QUOTE] @ S '', then | stop'',
          S ''https://github.com/octo/app/commit/0123456'']], None)"
proof -
  have h: "\<forall>c \<in> set [attach demo_repo tricky_commit]. repository c \<noteq> None"
    by (simp add: attach_def)
  have cells: "csv_cells (attach demo_repo tricky_commit)
      = [S ''2024-01-15T10:30:00Z'', S ''octo/app'', S ''Yes'', S ''0123456'',
         S ''Say '' @ [QUOTE] @ S ''hi'' @ [QUOTE] @ S '', then | stop'',
         S ''https://github.com/octo/app/commit/0123456'']"
    by (simp add: csv_cells_def csv_record_def attach_def tricky_commit_def demo_repo_def
        replace_newlines_def S_def NL_def QUOTE_def)
  have safe: "\<forall>c \<in> set [attach demo_repo tricky_commit]. list_all csv_safe (csv_cells c)"
    by (simp add: cells csv_safe_def utf8_ok_simps utf8_ok_S field_size_limit_def QUOTE_def length_S)
  from csv_round_trip [OF h safe, of "S ''commits.csv''"] show ?thesis
    by (simp add: cells)
qed
end
